theory Spec2Isabelle
  imports Complex_Main "HOL-Library.Multiset" "HOL-Library.While_Combinator"
begin

section \<open>Machine arithmetic of \<^verbatim>\<open>tsp.c\<close>\<close>

text \<open>
  \<^verbatim>\<open>tsp.c\<close> computes with three binary floating-point types: \<^verbatim>\<open>float\<close> for
  coordinates, distances and tour lengths, \<^verbatim>\<open>double\<close> inside \<^verbatim>\<open>pow\<close> and \<^verbatim>\<open>sqrt\<close>,
  and \<^verbatim>\<open>long double\<close> for the trial counter \<^verbatim>\<open>i\<close> and the trial count \<^verbatim>\<open>num_iter\<close>.
  A value is a real number of the format, an infinity or a NaN. The two signed zeros are
  one value \<open>Fin 0\<close>: they compare equal in C and nothing in the program divides.
  Every operation computes the exact real result and rounds it to the nearest number of
  the format, ties to the even significand (the default rounding mode); a result beyond
  the largest number of the format is an infinity.
\<close>

datatype fval = Fin real | PInf | NInf | NaN

record format =
  prec :: nat
  emax :: int

definition binary32 :: format where
  "binary32 = \<lparr>prec = 24, emax = 127\<rparr>"

definition binary64 :: format where
  "binary64 = \<lparr>prec = 53, emax = 1023\<rparr>"

text \<open>The format of \<^verbatim>\<open>long double\<close> is the platform's; on Linux/x86 it is this one.\<close>

definition x87_extended :: format where
  "x87_extended = \<lparr>prec = 64, emax = 16383\<rparr>"

text \<open>Every binary format of IEEE 754 has at least two digits and \<open>prec \<le> emax\<close>.\<close>

definition valid_format :: "format \<Rightarrow> bool" where
  "valid_format f \<longleftrightarrow> 2 \<le> prec f \<and> int (prec f) \<le> emax f"

text \<open>Nearest integer of a non-negative real, ties to even.\<close>

definition rne :: "real \<Rightarrow> int" where
  "rne q =
     (let f = \<lfloor>q\<rfloor>; r = q - of_int f
      in if r < 1 / 2 then f else if 1 / 2 < r then f + 1
         else if even f then f else f + 1)"

text \<open>
  The exponent of the last place of \<open>x\<close>: numbers in \<open>[2^e, 2^(e+1))\<close> are spaced
  \<open>2^(e - (prec - 1))\<close> apart, and below \<open>2^emin\<close>, with \<open>emin = 1 - emax\<close>, the spacing
  stays that of \<open>2^emin\<close> (subnormal numbers).
\<close>

definition ulp_exp :: "format \<Rightarrow> real \<Rightarrow> int" where
  "ulp_exp f x = max \<lfloor>log 2 \<bar>x\<bar>\<rfloor> (1 - emax f) - (int (prec f) - 1)"

definition round_to :: "format \<Rightarrow> real \<Rightarrow> fval" where
  "round_to f x =
     (if x = 0 then Fin 0
      else let u = 2 powi ulp_exp f x;
               y = of_int (rne (\<bar>x\<bar> / u)) * u
           in if 2 powi (emax f + 1) \<le> y then (if 0 < x then PInf else NInf)
              else Fin (sgn x * y))"

fun fneg :: "fval \<Rightarrow> fval" where
  "fneg (Fin x) = Fin (- x)"
| "fneg PInf = NInf"
| "fneg NInf = PInf"
| "fneg NaN = NaN"

fun fadd :: "format \<Rightarrow> fval \<Rightarrow> fval \<Rightarrow> fval" where
  "fadd f (Fin x) (Fin y) = round_to f (x + y)"
| "fadd f NaN b = NaN"
| "fadd f a NaN = NaN"
| "fadd f PInf NInf = NaN"
| "fadd f NInf PInf = NaN"
| "fadd f PInf b = PInf"
| "fadd f a PInf = PInf"
| "fadd f NInf b = NInf"
| "fadd f a NInf = NInf"

definition fsub :: "format \<Rightarrow> fval \<Rightarrow> fval \<Rightarrow> fval" where
  "fsub f a b = fadd f a (fneg b)"

text \<open>The comparisons \<^verbatim>\<open><\<close> and \<^verbatim>\<open><=\<close> of C: false as soon as an operand is a NaN.\<close>

fun fless :: "fval \<Rightarrow> fval \<Rightarrow> bool" where
  "fless (Fin x) (Fin y) = (x < y)"
| "fless NaN b = False"
| "fless a NaN = False"
| "fless a NInf = False"
| "fless NInf b = True"
| "fless PInf b = False"
| "fless a PInf = True"

fun fle :: "fval \<Rightarrow> fval \<Rightarrow> bool" where
  "fle (Fin x) (Fin y) = (x \<le> y)"
| "fle NaN b = False"
| "fle a NaN = False"
| "fle NInf b = True"
| "fle a PInf = True"
| "fle a NInf = False"
| "fle PInf b = False"

text \<open>Conversion to a format, as the assignment of a \<^verbatim>\<open>double\<close> to a \<^verbatim>\<open>float\<close> does.\<close>

fun fcast :: "format \<Rightarrow> fval \<Rightarrow> fval" where
  "fcast f (Fin x) = round_to f x"
| "fcast f a = a"

text \<open>
  \<^verbatim>\<open>pow (x, 2)\<close> and \<^verbatim>\<open>sqrt (x)\<close> of the C library, on \<^verbatim>\<open>double\<close>, taken as correctly
  rounded.
\<close>

fun c_pow2 :: "fval \<Rightarrow> fval" where
  "c_pow2 (Fin x) = round_to binary64 (x * x)"
| "c_pow2 NaN = NaN"
| "c_pow2 a = PInf"

fun c_sqrt :: "fval \<Rightarrow> fval" where
  "c_sqrt (Fin x) = (if x < 0 then NaN else round_to binary64 (sqrt x))"
| "c_sqrt PInf = PInf"
| "c_sqrt a = NaN"

definition FLT_MAX :: fval where
  "FLT_MAX = Fin (2 ^ 128 - 2 ^ 104)"

fun is_finite :: "fval \<Rightarrow> bool" where
  "is_finite (Fin x) = True"
| "is_finite a = False"

fun nonneg :: "fval \<Rightarrow> bool" where
  "nonneg (Fin x) = (0 \<le> x)"
| "nonneg PInf = True"
| "nonneg a = False"

text \<open>A real number is a number of the format when rounding leaves it as it is.\<close>

definition representable :: "format \<Rightarrow> real \<Rightarrow> bool" where
  "representable f x \<longleftrightarrow> round_to f x = Fin x"

section \<open>The distance table\<close>

text \<open>
  \<^verbatim>\<open>coord\<close> is an array of rows of two floats; a row is a pair here. The expression of
  line 41: the two differences are \<^verbatim>\<open>float\<close> subtractions, their conversion to
  \<^verbatim>\<open>double\<close> for \<^verbatim>\<open>pow\<close> is exact, and the assignment rounds the \<^verbatim>\<open>double\<close> to
  \<^verbatim>\<open>float\<close>.
\<close>

definition euclid :: "(fval \<times> fval) list \<Rightarrow> nat \<Rightarrow> nat \<Rightarrow> fval" where
  "euclid coord i j =
     fcast binary32
       (c_sqrt (fadd binary64
          (c_pow2 (fsub binary32 (fst (coord ! i)) (fst (coord ! j))))
          (c_pow2 (fsub binary32 (snd (coord ! i)) (snd (coord ! j))))))"

text \<open>What \<^verbatim>\<open>malloc\<close> returns holds indeterminate values.\<close>

definition fresh :: "nat \<Rightarrow> 'a list" where
  "fresh n = replicate n undefined"

function dm_cols ::
  "(fval \<times> fval) list \<Rightarrow> nat \<Rightarrow> nat \<Rightarrow> nat \<Rightarrow> fval list list \<Rightarrow> fval list list" where
  "dm_cols coord num_city i j distance =
     (if j < num_city
      then dm_cols coord num_city i (j + 1)
             (distance[i := (distance ! i)[j := euclid coord i j]])
      else distance)"
  by pat_completeness auto
termination
  by (relation "measure (\<lambda>(coord, num_city, i, j, distance). num_city - j)") auto

declare dm_cols.simps [simp del]

function dm_rows ::
  "(fval \<times> fval) list \<Rightarrow> nat \<Rightarrow> nat \<Rightarrow> fval list list \<Rightarrow> fval list list" where
  "dm_rows coord num_city i distance =
     (if i < num_city
      then dm_rows coord num_city (i + 1) (dm_cols coord num_city i 0 distance)
      else distance)"
  by pat_completeness auto
termination
  by (relation "measure (\<lambda>(coord, num_city, i, distance). num_city - i)") auto

declare dm_rows.simps [simp del]

definition distance_matrix :: "(fval \<times> fval) list \<Rightarrow> nat \<Rightarrow> fval list list" where
  "distance_matrix coord num_city =
     dm_rows coord num_city 0 (replicate num_city (fresh num_city))"

section \<open>Measuring a tour\<close>

text \<open>
  \<^verbatim>\<open>measure_path\<close> assigns to its locals \<^verbatim>\<open>i\<close> and \<^verbatim>\<open>l\<close> only, so the model returns the
  value of \<^verbatim>\<open>l\<close> and nothing else. A read outside the tour or the table is undefined in
  C: the model returns \<open>None\<close> there.
\<close>

function measure_loop ::
  "fval list list \<Rightarrow> nat \<Rightarrow> nat list \<Rightarrow> nat \<Rightarrow> fval \<Rightarrow> fval option" where
  "measure_loop distance num_city path i l =
     (if i < num_city
      then (if i + 1 < length path \<and> path ! i < length distance
               \<and> path ! (i + 1) < length (distance ! (path ! i))
            then measure_loop distance num_city path (i + 1)
                   (fadd binary32 l (distance ! (path ! i) ! (path ! (i + 1))))
            else None)
      else Some l)"
  by pat_completeness auto
termination
  by (relation "measure (\<lambda>(distance, num_city, path, i, l). num_city - i)") auto

declare measure_loop.simps [simp del]

definition measure_path :: "fval list list \<Rightarrow> nat \<Rightarrow> nat list \<Rightarrow> fval option" where
  "measure_path distance num_city path = measure_loop distance num_city path 0 (Fin 0)"

text \<open>The distances \<^verbatim>\<open>measure_path\<close> adds, in the order it adds them.\<close>

definition edges :: "fval list list \<Rightarrow> nat \<Rightarrow> nat list \<Rightarrow> fval list" where
  "edges distance num_city path =
     map (\<lambda>i. distance ! (path ! i) ! (path ! (i + 1))) [0..<num_city]"

text \<open>
  The sum of the same distances in exact arithmetic, for tables of finite distances.
\<close>

fun the_real :: "fval \<Rightarrow> real" where
  "the_real (Fin x) = x"
| "the_real a = 0"

definition exact_sum :: "fval list list \<Rightarrow> nat \<Rightarrow> nat list \<Rightarrow> real" where
  "exact_sum distance num_city path = sum_list (map the_real (edges distance num_city path))"

definition valid_tour :: "nat \<Rightarrow> nat list \<Rightarrow> bool" where
  "valid_tour n path \<longleftrightarrow> length path = n + 1 \<and> (\<forall>c \<in> set path. c < n)"

definition square :: "nat \<Rightarrow> fval list list \<Rightarrow> bool" where
  "square n distance \<longleftrightarrow> length distance = n \<and> (\<forall>row \<in> set distance. length row = n)"

definition symmetric :: "nat \<Rightarrow> fval list list \<Rightarrow> bool" where
  "symmetric n distance \<longleftrightarrow> (\<forall>i < n. \<forall>j < n. distance ! i ! j = distance ! j ! i)"

text \<open>
  A tour is closed when its last entry is its first. The same cycle started \<open>k\<close> cities
  later: the first \<open>N\<close> entries rotated, and the new first entry appended. The cycle
  walked backwards is the reversed array.
\<close>

definition closed_tour :: "nat \<Rightarrow> nat list \<Rightarrow> bool" where
  "closed_tour n path \<longleftrightarrow> valid_tour n path \<and> path ! n = path ! 0"

definition rotate_tour :: "nat \<Rightarrow> nat list \<Rightarrow> nat list" where
  "rotate_tour k path = (let c = rotate k (butlast path) in c @ [c ! 0])"

definition reverse_tour :: "nat list \<Rightarrow> nat list" where
  "reverse_tour path = rev path"

section \<open>Sampling a tour\<close>

text \<open>
  The pseudo-random source is the C library's \<^verbatim>\<open>rand\<close>, seeded once in \<^verbatim>\<open>main\<close>. For a
  given seed it is a fixed sequence of numbers; a call takes the first one.
\<close>

type_synonym rng = "nat \<Rightarrow> nat"

definition rand :: "rng \<Rightarrow> nat \<times> rng" where
  "rand r = (r 0, \<lambda>k. r (Suc k))"

text \<open>
  Modelled from the spec: \<^verbatim>\<open>randperm\<close> is declared in \<^verbatim>\<open>utils.h\<close> and its code is not
  in \<^verbatim>\<open>tsp.c\<close>. The spec says that it produces a random permutation of \<open>0..N-1\<close> and
  consumes entropy from the shared pseudo-random source. The model fills the first
  \<open>n\<close> cells with \<open>0..n-1\<close> and exchanges cell \<open>i\<close> with a cell drawn from \<open>i..n-1\<close>, for
  each \<open>i\<close>.
\<close>

function randperm_loop :: "nat \<Rightarrow> nat \<Rightarrow> nat list \<Rightarrow> rng \<Rightarrow> nat list \<times> rng" where
  "randperm_loop n i perm r =
     (if i < n
      then (let (v, r') = rand r; j = v mod (n - i) + i
            in randperm_loop n (i + 1) (perm[i := perm ! j, j := perm ! i]) r')
      else (perm, r))"
  by pat_completeness auto
termination
  by (relation "measure (\<lambda>(n, i, perm, r). n - i)") auto

declare randperm_loop.simps [simp del]

definition randperm :: "nat \<Rightarrow> nat list \<Rightarrow> rng \<Rightarrow> nat list \<times> rng" where
  "randperm n perm r = randperm_loop n 0 ([0..<n] @ drop n perm) r"

text \<open>
  Tours live in allocated blocks: \<^verbatim>\<open>create_path\<close> allocates one per trial, \<^verbatim>\<open>main\<close>
  frees it at the end of the trial, and the best tour is kept in a block of its own. A
  heap maps the address of a live block to its contents; \<open>brk\<close> is the next address
  \<^verbatim>\<open>malloc\<close> hands out. \<^verbatim>\<open>malloc\<close> is taken never to fail, as the code takes it.
\<close>

record heap =
  cells :: "nat \<Rightarrow> nat list option"
  brk :: nat

definition malloc :: "heap \<Rightarrow> nat \<Rightarrow> nat \<times> heap" where
  "malloc h n = (brk h, h\<lparr>cells := (cells h)(brk h \<mapsto> fresh n), brk := Suc (brk h)\<rparr>)"

definition free :: "heap \<Rightarrow> nat \<Rightarrow> heap" where
  "free h p = h\<lparr>cells := (cells h)(p := None)\<rparr>"

definition empty_heap :: heap where
  "empty_heap = \<lparr>cells = (\<lambda>a. None), brk = 0\<rparr>"

definition create_path :: "nat \<Rightarrow> heap \<Rightarrow> rng \<Rightarrow> nat \<times> heap \<times> rng" where
  "create_path num_city h r =
     (let (p, h1) = malloc h (num_city + 1);
          (a, r1) = randperm num_city (fresh (num_city + 1)) r
      in (p, h1\<lparr>cells := (cells h1)(p \<mapsto> a[num_city := a ! 0])\<rparr>, r1))"

text \<open>
  Modelled from the spec: \<^verbatim>\<open>array_copy\<close> is declared in \<^verbatim>\<open>utils.h\<close> and its code is not
  in \<^verbatim>\<open>tsp.c\<close>. The spec says that the retained best tour is copied out before the
  trial's tour is discarded. The model allocates a block of \<open>n + 1\<close> cells for the
  destination and copies the source block into it; copying from a block that is not
  live is undefined (\<open>None\<close>).
\<close>

definition array_copy :: "heap \<Rightarrow> nat \<Rightarrow> nat \<Rightarrow> (nat \<times> heap) option" where
  "array_copy h src n =
     (case cells h src of
        None \<Rightarrow> None
      | Some a \<Rightarrow>
          (let (q, h1) = malloc h (n + 1)
           in Some (q, h1\<lparr>cells := (cells h1)(q \<mapsto> take (n + 1) a)\<rparr>)))"

section \<open>The search loop of \<^verbatim>\<open>main\<close>\<close>

text \<open>
  The variables of \<^verbatim>\<open>main\<close> that the loop of lines 208 to 221 reads and writes. A
  pointer that was never assigned is \<open>None\<close>. \<open>st_out\<close> collects what \<^verbatim>\<open>print_path\<close>
  is given, and \<open>st_ub\<close> records that a trial ran into undefined behaviour, where the
  model stops.
\<close>

record state =
  st_rng :: rng
  st_heap :: heap
  st_i :: fval
  st_path :: "nat option"
  st_min_path :: "nat option"
  st_len :: fval
  st_min_len :: fval
  st_out :: "(nat list \<times> fval) list"
  st_ub :: bool

definition init_state :: "heap \<Rightarrow> rng \<Rightarrow> state" where
  "init_state h r =
     \<lparr>st_rng = r, st_heap = h, st_i = Fin 0, st_path = None, st_min_path = None,
      st_len = Fin 0, st_min_len = FLT_MAX, st_out = [], st_ub = False\<rparr>"

text \<open>
  What holds of the heap between trials: no block lives at an address \<^verbatim>\<open>malloc\<close> has
  not handed out yet, and \<^verbatim>\<open>min_path\<close>, once assigned, is such an address.
\<close>

definition heap_ok :: "heap \<Rightarrow> bool" where
  "heap_ok h \<longleftrightarrow> (\<forall>a. brk h \<le> a \<longrightarrow> cells h a = None)"

definition state_ok :: "state \<Rightarrow> bool" where
  "state_ok s \<longleftrightarrow>
     heap_ok (st_heap s) \<and> (\<forall>q. st_min_path s = Some q \<longrightarrow> q < brk (st_heap s))"

text \<open>The tour a trial samples and the length it measures, from the state before it.\<close>

definition trial_tour :: "nat \<Rightarrow> state \<Rightarrow> nat list option" where
  "trial_tour num_cities s =
     (let (p, h1, r1) = create_path num_cities (st_heap s) (st_rng s) in cells h1 p)"

definition trial_len :: "fval list list \<Rightarrow> nat \<Rightarrow> state \<Rightarrow> fval option" where
  "trial_len distance num_cities s =
     (case trial_tour num_cities s of
        None \<Rightarrow> None
      | Some a \<Rightarrow> measure_path distance num_cities a)"

text \<open>
  One execution of the loop body followed by \<^verbatim>\<open>i++\<close>; \<open>ld\<close> is the format of
  \<^verbatim>\<open>long double\<close>. \<^verbatim>\<open>!mode == 0\<close> parses as \<^verbatim>\<open>(!mode) == 0\<close>, which is \<^verbatim>\<open>mode != 0\<close>.
\<close>

definition loop_body :: "format \<Rightarrow> fval list list \<Rightarrow> nat \<Rightarrow> int \<Rightarrow> state \<Rightarrow> state" where
  "loop_body ld distance num_cities mode s =
     (let (p, h1, r1) = create_path num_cities (st_heap s) (st_rng s);
          s1 = s\<lparr>st_rng := r1, st_heap := h1, st_path := Some p\<rparr>
      in case cells h1 p of
           None \<Rightarrow> s1\<lparr>st_ub := True\<rparr>
         | Some a \<Rightarrow>
           (case measure_path distance num_cities a of
              None \<Rightarrow> s1\<lparr>st_ub := True\<rparr>
            | Some l \<Rightarrow>
              (let s2 = s1\<lparr>st_len := l,
                          st_out := (if mode \<noteq> 0 then st_out s @ [(a, l)] else st_out s)\<rparr>
               in if fless l (st_min_len s2)
                  then (case array_copy h1 p num_cities of
                          None \<Rightarrow> s2\<lparr>st_ub := True\<rparr>
                        | Some (q, h2) \<Rightarrow>
                            s2\<lparr>st_min_len := l, st_min_path := Some q,
                               st_heap := free h2 p, st_i := fadd ld (st_i s) (Fin 1)\<rparr>)
                  else s2\<lparr>st_heap := free h1 p, st_i := fadd ld (st_i s) (Fin 1)\<rparr>)))"

definition loop_cond :: "fval \<Rightarrow> state \<Rightarrow> bool" where
  "loop_cond num_iter s \<longleftrightarrow> \<not> st_ub s \<and> fless (st_i s) num_iter"

text \<open>
  The loop \<^verbatim>\<open>for (i = 0; i < num_iter; i++)\<close>. \<open>None\<close> is a loop that never ends.
\<close>

definition search_loop ::
  "format \<Rightarrow> fval list list \<Rightarrow> nat \<Rightarrow> int \<Rightarrow> fval \<Rightarrow> state \<Rightarrow> state option" where
  "search_loop ld distance num_cities mode num_iter s =
     while_option (loop_cond num_iter) (loop_body ld distance num_cities mode) s"

section \<open>Reading the coordinates\<close>

text \<open>
  \<^verbatim>\<open>is_integer\<close>, \<^verbatim>\<open>is_positive_number\<close> and \<^verbatim>\<open>is_coordinate\<close> are declared in
  \<^verbatim>\<open>utils.h\<close> and their code is not in \<^verbatim>\<open>tsp.c\<close>: the model takes them as parameters.
\<close>

record utils =
  is_integer :: "string \<Rightarrow> bool"
  is_positive_number :: "string \<Rightarrow> bool"
  is_coordinate :: "string \<Rightarrow> bool"

text \<open>
  The file system: the lines of each file that \<^verbatim>\<open>fopen\<close> can open, and the \<open>k\<close>-th
  number that \<^verbatim>\<open>fscanf\<close> converts from these lines.
\<close>

record files =
  fopen :: "string \<Rightarrow> string list option"
  fscanf :: "string list \<Rightarrow> nat \<Rightarrow> fval"

text \<open>
  The \<^verbatim>\<open>getline\<close> loop of \<^verbatim>\<open>read_file\<close>: \<open>None\<close> is the \<^verbatim>\<open>return -1\<close> at the first line
  that is not a coordinate, otherwise the count of lines. The count is an \<^verbatim>\<open>int\<close> in
  C; the model does not bound it (a file of \<open>2^31\<close> lines or more is outside the model).
\<close>

fun count_rows :: "utils \<Rightarrow> string list \<Rightarrow> int \<Rightarrow> int option" where
  "count_rows u [] nrows = Some nrows"
| "count_rows u (line # rest) nrows =
     (if \<not> is_coordinate u line then None else count_rows u rest (nrows + 1))"

text \<open>
  \<^verbatim>\<open>read_file\<close> returns the count and, when it gets there, the array it allocated and
  filled: \<open>nrows\<close> rows of two numbers.
\<close>

definition read_file :: "utils \<Rightarrow> files \<Rightarrow> string \<Rightarrow> int \<times> (fval \<times> fval) list option" where
  "read_file u fs file =
     (case fopen fs file of
        None \<Rightarrow> (0, None)
      | Some lines \<Rightarrow>
          (case count_rows u lines 0 of
             None \<Rightarrow> (- 1, None)
           | Some nrows \<Rightarrow>
               (nrows,
                Some (map (\<lambda>i. (fscanf fs lines (2 * i), fscanf fs lines (2 * i + 1)))
                        [0..<nat nrows]))))"

section \<open>\<^verbatim>\<open>main\<close>\<close>

text \<open>
  \<^verbatim>\<open>strtold\<close> and \<^verbatim>\<open>atoi\<close> of the C library on a string of decimal digits: the number
  the digits denote, rounded to \<^verbatim>\<open>long double\<close> by \<^verbatim>\<open>strtold\<close>. A string with a sign
  or any other character that is not a digit is outside the model, and the model does not
  bound the result of \<^verbatim>\<open>atoi\<close> (a mode of ten digits or more is outside the model).
\<close>

definition decimal :: "string \<Rightarrow> nat" where
  "decimal s = foldl (\<lambda>a c. 10 * a + (of_char c - 48)) 0 s"

definition strtold :: "format \<Rightarrow> string \<Rightarrow> fval" where
  "strtold ld s = round_to ld (real (decimal s))"

definition atoi :: "string \<Rightarrow> int" where
  "atoi s = int (decimal s)"

text \<open>
  The options \<^verbatim>\<open>getopt\<close> returns, in the order of the command line; \<open>Opt_invalid\<close> is
  its \<^verbatim>\<open>'?'\<close>.
\<close>

datatype opt = Opt_n string | Opt_m string | Opt_f string | Opt_h | Opt_invalid

text \<open>The variables of \<^verbatim>\<open>main\<close> that the option loop sets.\<close>

record config =
  cf_num_iter :: fval
  cf_mode :: int
  cf_num_cities :: int
  cf_coord :: "(fval \<times> fval) list option"
  cf_nflag :: bool
  cf_mflag :: bool
  cf_fflag :: bool

text \<open>
  What the report \<^verbatim>\<open>print_repo\<close> is given. \<open>rep_min_path\<close> is the block \<^verbatim>\<open>min_path\<close>
  points to, \<open>None\<close> when \<^verbatim>\<open>min_path\<close> was never assigned.
\<close>

record report =
  rep_min_path :: "nat list option"
  rep_min_len :: fval
  rep_num_iter :: fval
  rep_num_cities :: nat
  rep_mode :: int
  rep_out :: "(nat list \<times> fval) list"

text \<open>
  How a run ends: an exit with a status and a message, undefined behaviour inside a
  trial, or the \<^verbatim>\<open>return 0\<close> after \<^verbatim>\<open>print_repo\<close>.
\<close>

datatype outcome = Exit int string | Undefined_behaviour | Return0 report

definition EXIT_FAILURE :: int where
  "EXIT_FAILURE = 1"

definition EXIT_SUCCESS :: int where
  "EXIT_SUCCESS = 0"

text \<open>One round of the \<^verbatim>\<open>switch\<close> of lines 125 to 177.\<close>

fun getopt_case :: "utils \<Rightarrow> files \<Rightarrow> format \<Rightarrow> opt \<Rightarrow> config \<Rightarrow> outcome + config" where
  "getopt_case u fs ld (Opt_n optarg) c =
     (if \<not> is_integer u optarg
      then Inl (Exit EXIT_FAILURE ''error: number of simulations must be an integer'')
      else Inr (c\<lparr>cf_nflag := True, cf_num_iter := strtold ld optarg\<rparr>))"
| "getopt_case u fs ld (Opt_m optarg) c =
     (if \<not> is_positive_number u optarg
      then Inl (Exit EXIT_FAILURE ''error: invalid mode, choose 0, 1 or 2'')
      else if atoi optarg > 2
      then Inl (Exit EXIT_FAILURE ''error: invalid mode, choose 0, 1 or 2'')
      else Inr (c\<lparr>cf_mflag := True, cf_mode := atoi optarg\<rparr>))"
| "getopt_case u fs ld (Opt_f optarg) c =
     (let (num_cities, coord) = read_file u fs optarg
      in if num_cities = 0
         then Inl (Exit EXIT_FAILURE ''error: no such file or directory'')
         else if num_cities = - 1
         then Inl (Exit EXIT_FAILURE ''error: incompatible data file'')
         else Inr (c\<lparr>cf_fflag := True, cf_num_cities := num_cities, cf_coord := coord\<rparr>))"
| "getopt_case u fs ld Opt_h c = Inl (Exit EXIT_SUCCESS ''usage'')"
| "getopt_case u fs ld Opt_invalid c = Inl (Exit 1 ''error: invalid option'')"

fun getopt_loop :: "utils \<Rightarrow> files \<Rightarrow> format \<Rightarrow> opt list \<Rightarrow> config \<Rightarrow> outcome + config" where
  "getopt_loop u fs ld [] c = Inr c"
| "getopt_loop u fs ld (x # xs) c =
     (case getopt_case u fs ld x c of
        Inl e \<Rightarrow> Inl e
      | Inr c' \<Rightarrow> getopt_loop u fs ld xs c')"

text \<open>The test of line 185.\<close>

definition overflow_guard :: "format \<Rightarrow> fval \<Rightarrow> bool" where
  "overflow_guard ld num_iter \<longleftrightarrow> fless (fadd ld num_iter (Fin 1)) num_iter"

text \<open>
  Lines 122 to 197: the option loop and the three checks after it. The locals are not
  initialised, except the flags; \<open>junk\<close> is what \<^verbatim>\<open>num_iter\<close> holds before \<^verbatim>\<open>-n\<close>
  assigns it, which line 185 reads. \<open>extra\<close> is \<^verbatim>\<open>optind < argc\<close>.
\<close>

definition init_config :: "fval \<Rightarrow> config" where
  "init_config junk =
     \<lparr>cf_num_iter = junk, cf_mode = undefined, cf_num_cities = undefined,
      cf_coord = None, cf_nflag = False, cf_mflag = False, cf_fflag = False\<rparr>"

definition startup ::
  "utils \<Rightarrow> files \<Rightarrow> format \<Rightarrow> fval \<Rightarrow> opt list \<Rightarrow> bool \<Rightarrow> outcome + config" where
  "startup u fs ld junk opts extra =
     (case getopt_loop u fs ld opts (init_config junk) of
        Inl e \<Rightarrow> Inl e
      | Inr c \<Rightarrow>
          if extra then Inl (Exit EXIT_FAILURE ''error: too many or too few arguments'')
          else if overflow_guard ld (cf_num_iter c)
          then Inl (Exit EXIT_FAILURE ''error: number of simulations must be less than LDBL_MAX'')
          else if \<not> cf_nflag c \<or> \<not> cf_mflag c \<or> \<not> cf_fflag c
          then Inl (Exit EXIT_FAILURE ''error: too few parameters'')
          else Inr c)"

text \<open>
  The arguments of the call of \<^verbatim>\<open>print_repo\<close> in line 226, from the state the loop ends
  in. The code passes \<^verbatim>\<open>min_path\<close> to \<^verbatim>\<open>print_repo\<close> and to \<^verbatim>\<open>free\<close> whether or not it
  was ever assigned; with an unassigned pointer both calls are undefined in C, and the
  report then has \<open>rep_min_path = None\<close>.
\<close>

definition report_of :: "config \<Rightarrow> nat \<Rightarrow> state \<Rightarrow> report" where
  "report_of c n s =
     \<lparr>rep_min_path =
        (case st_min_path s of None \<Rightarrow> None | Some q \<Rightarrow> cells (st_heap s) q),
      rep_min_len = st_min_len s, rep_num_iter = cf_num_iter c,
      rep_num_cities = n, rep_mode = cf_mode c, rep_out = st_out s\<rparr>"

text \<open>
  Lines 199 to 232. \<open>r\<close> is the sequence \<^verbatim>\<open>rand\<close> yields after \<^verbatim>\<open>srand (time (NULL))\<close>,
  \<open>h\<close> the heap. \<open>None\<close> is a run that never ends.
\<close>

definition run :: "format \<Rightarrow> heap \<Rightarrow> rng \<Rightarrow> config \<Rightarrow> outcome option" where
  "run ld h r c =
     (case cf_coord c of
        None \<Rightarrow> Some Undefined_behaviour
      | Some coord \<Rightarrow>
          (let n = nat (cf_num_cities c);
               distance = distance_matrix coord n
           in case search_loop ld distance n (cf_mode c) (cf_num_iter c) (init_state h r) of
                None \<Rightarrow> None
              | Some s \<Rightarrow>
                  if st_ub s then Some Undefined_behaviour
                  else Some (Return0 (report_of c n s))))"

definition main ::
  "utils \<Rightarrow> files \<Rightarrow> format \<Rightarrow> fval \<Rightarrow> heap \<Rightarrow> rng \<Rightarrow> opt list \<Rightarrow> bool \<Rightarrow> outcome option" where
  "main u fs ld junk h r opts extra =
     (case startup u fs ld junk opts extra of
        Inl e \<Rightarrow> Some e
      | Inr c \<Rightarrow> run ld h r c)"

text \<open>
  An instance of the helpers and of the file system, to run \<^verbatim>\<open>main\<close> on concrete
  command lines: \<^verbatim>\<open>is_integer\<close> and \<^verbatim>\<open>is_positive_number\<close> accept the non-empty
  strings of decimal digits, \<^verbatim>\<open>is_coordinate\<close> accepts the non-empty lines, the file
  \<^verbatim>\<open>cities.txt\<close> holds the two cities \<open>(0, 0)\<close> and \<open>(3, 4)\<close>, and the file
  \<^verbatim>\<open>empty.txt\<close> holds nothing.
\<close>

definition all_digits :: "string \<Rightarrow> bool" where
  "all_digits s \<longleftrightarrow> s \<noteq> [] \<and> set s \<subseteq> set ''0123456789''"

text \<open>
  The decimal numeral of \<open>10^5000\<close>, a trial count beyond the largest \<^verbatim>\<open>long double\<close>
  (about \<open>1.19 * 10^4932\<close> on Linux/x86).
\<close>

definition huge_count :: string where
  "huge_count = CHR ''1'' # replicate 5000 (CHR ''0'')"

definition sample_utils :: utils where
  "sample_utils =
     \<lparr>is_integer = all_digits, is_positive_number = all_digits,
      is_coordinate = (\<lambda>line. line \<noteq> [])\<rparr>"

definition sample_files :: files where
  "sample_files =
     \<lparr>fopen = (\<lambda>file. if file = ''cities.txt'' then Some [''0 0'', ''3 4'']
                       else if file = ''empty.txt'' then Some [] else None),
      fscanf = (\<lambda>lines k. [Fin 0, Fin 0, Fin 3, Fin 4] ! k)\<rparr>"

section \<open>Rounding\<close>

lemma floor_log2:
  assumes "0 < x" "2 powi e \<le> x" "x < 2 powi (e + 1)"
  shows "\<lfloor>log 2 x\<rfloor> = e"
proof -
  have a: "(2::real) powr real_of_int e = 2 powi e"
    by (rule powr_real_of_int') simp_all
  have b: "(2::real) powr (real_of_int e + 1) = 2 powi (e + 1)"
    using powr_real_of_int'[of 2 "e + 1"] by simp
  show ?thesis
    using floor_log_eq_powr_iff[of x 2 e] assms a b by simp
qed

lemma log2_bounds:
  assumes "0 < x"
  shows "2 powi \<lfloor>log 2 x\<rfloor> \<le> x \<and> x < 2 powi (\<lfloor>log 2 x\<rfloor> + 1)"
proof -
  have a: "(2::real) powr real_of_int \<lfloor>log 2 x\<rfloor> = 2 powi \<lfloor>log 2 x\<rfloor>"
    by (rule powr_real_of_int') simp_all
  have b: "(2::real) powr (real_of_int \<lfloor>log 2 x\<rfloor> + 1) = 2 powi (\<lfloor>log 2 x\<rfloor> + 1)"
    using powr_real_of_int'[of 2 "\<lfloor>log 2 x\<rfloor> + 1"] by simp
  show ?thesis
    using floor_log_eq_powr_iff[of x 2 "\<lfloor>log 2 x\<rfloor>"] assms a b by simp
qed

lemma rne_of_int: "rne (of_int k) = k"
  by (simp add: rne_def)

lemma rne_ge_floor: "\<lfloor>q\<rfloor> \<le> rne q"
  by (simp add: rne_def Let_def)

lemma rne_nonneg: "0 \<le> q \<Longrightarrow> 0 \<le> rne q"
  using rne_ge_floor[of q] by (simp add: order_trans[of 0 "\<lfloor>q\<rfloor>"])

lemma round_to_zero: "round_to f 0 = Fin 0"
  by (simp add: round_to_def)

lemma round_to_minus: "round_to f (- x) = fneg (round_to f x)"
  by (simp add: round_to_def ulp_exp_def Let_def sgn_if)

lemma round_to_nonneg: "0 \<le> x \<Longrightarrow> nonneg (round_to f x)"
  by (simp add: round_to_def Let_def rne_nonneg sgn_if)

lemma round_to_pos:
  assumes "0 < x" "2 powi e \<le> x" "x < 2 powi (e + 1)" "1 - emax f \<le> e"
  shows "round_to f x =
     (let u = 2 powi (e - (int (prec f) - 1)); y = of_int (rne (x / u)) * u
      in if 2 powi (emax f + 1) \<le> y then PInf else Fin y)"
  using assms by (simp add: round_to_def ulp_exp_def floor_log2 Let_def max_def)

lemma round_to_exact:
  assumes "0 < x" "2 powi e \<le> x" "x < 2 powi (e + 1)" "1 - emax f \<le> e" "e \<le> emax f"
    and "x / 2 powi (e - (int (prec f) - 1)) = of_int m"
  shows "round_to f x = Fin x"
proof -
  have u: "(2::real) powi (e - (int (prec f) - 1)) \<noteq> 0" by simp
  have y: "of_int m * 2 powi (e - (int (prec f) - 1)) = x"
    using assms(6) u by (simp add: field_simps)
  have "(2::real) powi (e + 1) \<le> 2 powi (emax f + 1)"
    using assms(5) by (intro power_int_increasing) simp_all
  then have "x < 2 powi (emax f + 1)" using assms(3) by linarith
  then show ?thesis
    using round_to_pos[OF assms(1-4)] assms(6) y by (simp add: Let_def rne_of_int)
qed

lemma round_to_overflow:
  assumes vf: "valid_format f" and big: "2 powi (emax f + 1) \<le> x"
  shows "round_to f x = PInf"
proof -
  have assms: "1 \<le> prec f" "2 powi (emax f + 1) \<le> x" "0 \<le> emax f"
    using vf big by (simp_all add: valid_format_def)
  have x0: "0 < x" using assms(2) zero_less_power_int[of "2::real" "emax f + 1"] by linarith
  define e where "e = \<lfloor>log 2 x\<rfloor>"
  have b: "2 powi e \<le> x" "x < 2 powi (e + 1)"
    using log2_bounds[OF x0] by (simp_all add: e_def)
  have ee: "emax f + 1 \<le> e"
  proof (rule ccontr)
    assume "\<not> emax f + 1 \<le> e"
    then have "e + 1 \<le> emax f + 1" by simp
    then have "(2::real) powi (e + 1) \<le> 2 powi (emax f + 1)"
      by (intro power_int_increasing) simp_all
    with b assms(2) show False by linarith
  qed
  define u :: real where "u = 2 powi (e - (int (prec f) - 1))"
  have u0: "0 < u" by (simp add: u_def)
  have "(2::real) powi e = 2 powi (int (prec f) - 1) * u"
    unfolding u_def by (simp flip: power_int_add)
  then have q: "2 powi (int (prec f) - 1) \<le> x / u"
    using b(1) u0 by (simp add: field_simps)
  have pint: "(2::real) powi (int (prec f) - 1) = of_int (2 ^ (prec f - 1))"
    using assms(1) by (simp add: power_int_def nat_diff_distrib)
  have "(2::int) ^ (prec f - 1) \<le> \<lfloor>x / u\<rfloor>"
    using q unfolding pint by (simp add: le_floor_iff)
  then have "(2::int) ^ (prec f - 1) \<le> rne (x / u)"
    using rne_ge_floor[of "x / u"] by linarith
  then have "of_int (2 ^ (prec f - 1)) * u \<le> of_int (rne (x / u)) * u"
    using u0 by (simp del: of_int_power)
  then have "2 powi e \<le> of_int (rne (x / u)) * u"
    using \<open>(2::real) powi e = 2 powi (int (prec f) - 1) * u\<close> pint by simp
  moreover have "(2::real) powi (emax f + 1) \<le> 2 powi e"
    using ee by (intro power_int_increasing) simp_all
  ultimately have big2: "2 powi (emax f + 1) \<le> of_int (rne (x / u)) * u" by linarith
  have em: "1 - emax f \<le> e" using ee assms(3) by linarith
  show ?thesis
    using round_to_pos[OF x0 b em] big2 by (simp add: Let_def u_def)
qed

lemma round_to_small_int:
  assumes vf: "valid_format f" and n: "n \<le> 2 ^ prec f"
  shows "round_to f (real n) = Fin (real n)"
proof (cases "n = 0")
  case True
  then show ?thesis by (simp add: round_to_zero)
next
  case False
  define p where "p = prec f"
  have p: "2 \<le> p" "int p \<le> emax f" using vf by (simp_all add: valid_format_def p_def)
  have x0: "0 < real n" using False by simp
  define e where "e = \<lfloor>log 2 (real n)\<rfloor>"
  have b: "2 powi e \<le> real n" "real n < 2 powi (e + 1)"
    using log2_bounds[OF x0] by (simp_all add: e_def)
  have e0: "0 \<le> e"
  proof (rule ccontr)
    assume "\<not> 0 \<le> e"
    then have "e + 1 \<le> 0" by simp
    then have "(2::real) powi (e + 1) \<le> 2 powi 0"
      by (intro power_int_increasing) simp_all
    with b(2) have "real n < 1" by simp
    with False show False by simp
  qed
  have ep: "e \<le> int p"
  proof (rule ccontr)
    assume "\<not> e \<le> int p"
    then have "int p + 1 \<le> e" by simp
    then have "(2::real) powi (int p + 1) \<le> 2 powi e"
      by (intro power_int_increasing) simp_all
    moreover have "(2::real) powi (int p + 1) = 2 * 2 ^ p"
      by (simp add: power_int_add)
    moreover have "real n \<le> 2 ^ p" using n unfolding p_def
      by (metis of_nat_le_iff of_nat_numeral of_nat_power)
    moreover have "(0::real) < 2 ^ p" by simp
    ultimately show False using b(1) by linarith
  qed
  have "\<exists>m. real n / 2 powi (e - (int p - 1)) = of_int m"
  proof (cases "e = int p")
    case True
    have "real n \<le> 2 ^ p" using n unfolding p_def
      by (metis of_nat_le_iff of_nat_numeral of_nat_power)
    with b(1) True have "real n = 2 ^ p" by simp
    moreover have "(2::real) ^ p = 2 * 2 ^ (p - 1)"
      using p(1) by (cases p) simp_all
    ultimately have "real n / 2 powi (e - (int p - 1)) = of_int (2 ^ (p - 1))"
      using True by simp
    then show ?thesis by blast
  next
    case False
    with ep have "e \<le> int p - 1" by simp
    then have "real n / 2 powi (e - (int p - 1)) = real n * 2 ^ nat (int p - 1 - e)"
      by (simp add: power_int_def field_simps)
    also have "\<dots> = of_int (int n * 2 ^ nat (int p - 1 - e))" by simp
    finally show ?thesis by blast
  qed
  then obtain m where m: "real n / 2 powi (e - (int (prec f) - 1)) = of_int m"
    unfolding p_def by blast
  have "1 - emax f \<le> e" "e \<le> emax f" using e0 ep p by linarith+
  then show ?thesis
    using round_to_exact[OF x0 b _ _ m] by simp
qed

lemma round_to_stall:
  assumes vf: "valid_format f"
  shows "round_to f (2 ^ prec f + 1) = Fin (2 ^ prec f)"
proof -
  define p where "p = prec f"
  have p: "2 \<le> p" "int p \<le> emax f" using vf by (simp_all add: valid_format_def p_def)
  define x :: real where "x = 2 ^ p + 1"
  have x0: "0 < x" by (simp add: x_def add_pos_pos)
  have one: "(1::real) < 2 ^ p" using p(1) by simp
  have b: "2 powi (int p) \<le> x" "x < 2 powi (int p + 1)"
    using one by (simp_all add: x_def power_int_add)
  have em: "1 - emax f \<le> int p" using p by linarith
  have half: "(2::real) ^ p = 2 * 2 ^ (p - 1)" using p(1) by (cases p) simp_all
  have q: "x / 2 = of_int (2 ^ (p - 1)) + 1 / 2"
    by (simp add: x_def half add_divide_distrib)
  have fl: "\<lfloor>x / 2\<rfloor> = 2 ^ (p - 1)"
    unfolding q by (simp add: floor_eq_iff del: of_int_power)
  have ev: "even ((2::int) ^ (p - 1))" using p(1) by simp
  have r: "rne (x / 2) = 2 ^ (p - 1)"
    using ev by (simp add: rne_def fl Let_def q)
  have y: "of_int (rne (x / 2)) * 2 = (2::real) ^ p"
    by (simp add: r half)
  have "(2::real) powi (int p) < 2 powi (emax f + 1)"
    using p(2) by (intro power_int_strict_increasing) simp_all
  then have no: "\<not> 2 powi (emax f + 1) \<le> (2::real) ^ p" by simp
  show ?thesis
    using round_to_pos[OF x0 b em] y no by (simp add: Let_def p_def[symmetric] x_def[symmetric])
qed

lemma fneg_fneg: "fneg (fneg a) = a"
  by (cases a) simp_all

lemma fadd_fneg: "fadd f (fneg a) (fneg b) = fneg (fadd f a b)"
  by (cases a; cases b) (simp_all add: round_to_minus[symmetric])

lemma fsub_swap: "fsub f b a = fneg (fsub f a b)"
  unfolding fsub_def using fadd_fneg[of f a "fneg b"]
  by (cases a; cases b) (simp_all add: add.commute fneg_fneg)

lemma c_pow2_fneg: "c_pow2 (fneg a) = c_pow2 a"
  by (cases a) simp_all

lemma fadd_commute: "fadd f a b = fadd f b a"
  by (cases a; cases b) (simp_all add: add.commute)

lemma euclid_sym: "euclid coord i j = euclid coord j i"
  unfolding euclid_def
  using fsub_swap[of binary32 "fst (coord ! i)" "fst (coord ! j)"]
        fsub_swap[of binary32 "snd (coord ! i)" "snd (coord ! j)"]
  by (simp add: c_pow2_fneg)

lemma fsub_self: "is_finite a \<Longrightarrow> fsub f a a = Fin 0"
  by (cases a) (simp_all add: fsub_def round_to_zero)

lemma euclid_diag:
  "is_finite (fst (coord ! i)) \<Longrightarrow> is_finite (snd (coord ! i)) \<Longrightarrow> euclid coord i i = Fin 0"
  by (simp add: euclid_def fsub_self round_to_zero)

lemma valid_binary32: "valid_format binary32"
  by (simp add: valid_format_def binary32_def)

lemma valid_binary64: "valid_format binary64"
  by (simp add: valid_format_def binary64_def)

lemma valid_x87_extended: "valid_format x87_extended"
  by (simp add: valid_format_def x87_extended_def)

lemma round32_nat: "n \<le> 2 ^ 24 \<Longrightarrow> round_to binary32 (real n) = Fin (real n)"
  using round_to_small_int[OF valid_binary32, of n] by (simp add: binary32_def)

lemma round64_nat: "n \<le> 2 ^ 53 \<Longrightarrow> round_to binary64 (real n) = Fin (real n)"
  using round_to_small_int[OF valid_binary64, of n] by (simp add: binary64_def)

lemma pow2_32: "e \<le> 127 \<Longrightarrow> round_to binary32 (2 ^ e) = Fin (2 ^ e)"
proof -
  assume e: "e \<le> 127"
  have "(2::real) ^ e / 2 powi (int e - (int (prec binary32) - 1)) = of_int (2 ^ 23)"
    by (simp add: binary32_def power_int_diff)
  then show ?thesis
    using e round_to_exact[of "2 ^ e" "int e" binary32 "2 ^ 23"]
    by (simp add: binary32_def power_int_add)
qed

lemma fless_imp_fle: "fless a b \<Longrightarrow> fle a b"
  by (cases a; cases b) simp_all

lemma fless_not_nan: "fless a b \<Longrightarrow> a \<noteq> NaN"
  by (cases a; cases b) simp_all

lemma fle_refl: "a \<noteq> NaN \<Longrightarrow> fle a a"
  by (cases a) simp_all

lemma fle_trans: "fle a b \<Longrightarrow> fle b c \<Longrightarrow> fle a c"
  by (cases a; cases b; cases c) simp_all

lemma rne_le_floor1: "rne q \<le> \<lfloor>q\<rfloor> + 1"
  by (simp add: rne_def Let_def)

lemma fle_not_fless: "fle a b \<Longrightarrow> \<not> fless b a"
  by (cases a; cases b) simp_all

lemma round_down_ge:
  assumes vf: "valid_format f" and m: "0 \<le> m" "m \<le> 2 ^ prec f"
    and k: "1 - emax f - (int (prec f) - 1) \<le> k"
    and v: "v = of_int m * 2 powi k" and w: "0 < w" "v \<le> w"
  shows "v \<le> of_int (rne (w / 2 powi ulp_exp f w)) * 2 powi ulp_exp f w"
proof -
  define p where "p = prec f"
  define kw where "kw = ulp_exp f w"
  define u :: real where "u = 2 powi kw"
  have p1: "1 \<le> p" using vf by (simp add: valid_format_def p_def)
  have u0: "0 < u" by (simp add: u_def)
  show ?thesis
  proof (cases "kw \<le> k")
    case True
    have "(2::real) powi k = 2 powi (k - kw) * 2 powi kw"
      by (simp flip: power_int_add)
    then have "v / u = of_int m * 2 powi (k - kw)"
      using u0 by (simp add: v u_def)
    also have "\<dots> = of_int (m * 2 ^ nat (k - kw))"
      using True by (simp add: power_int_def)
    finally have vu: "v / u = of_int (m * 2 ^ nat (k - kw))" .
    have "v / u \<le> w / u" using w(2) u0 by (simp add: divide_right_mono)
    then have "m * 2 ^ nat (k - kw) \<le> \<lfloor>w / u\<rfloor>"
      unfolding vu by (simp add: le_floor_iff)
    then have "m * 2 ^ nat (k - kw) \<le> rne (w / u)"
      using rne_ge_floor[of "w / u"] by linarith
    then have "real_of_int (m * 2 ^ nat (k - kw)) \<le> real_of_int (rne (w / u))"
      by (simp only: of_int_le_iff)
    then have "real_of_int (m * 2 ^ nat (k - kw)) * u \<le> real_of_int (rne (w / u)) * u"
      using u0 by (simp add: mult_right_mono)
    moreover have "real_of_int (m * 2 ^ nat (k - kw)) * u = v"
      using vu u0 by (simp add: field_simps)
    ultimately have "v \<le> real_of_int (rne (w / u)) * u" by linarith
    then show ?thesis by (simp only: u_def kw_def)
  next
    case False
    define E where "E = \<lfloor>log 2 w\<rfloor>"
    have kwd: "kw = max E (1 - emax f) - (int p - 1)"
      using w(1) by (simp add: kw_def ulp_exp_def E_def p_def)
    have "1 - emax f - (int p - 1) < kw" using False k by (simp add: p_def)
    then have kE: "kw = E - (int p - 1)" using kwd by (simp add: max_def split: if_splits)
    have b: "2 powi E \<le> w" using log2_bounds[OF w(1)] by (simp add: E_def)
    have "real_of_int m \<le> 2 ^ p"
      using m(2) unfolding p_def by (metis of_int_le_iff of_int_numeral of_int_power)
    then have "v \<le> 2 ^ p * 2 powi k"
      unfolding v by (simp add: mult_right_mono)
    also have "\<dots> = 2 powi (int p + k)" by (simp add: power_int_add)
    also have "\<dots> \<le> 2 powi E"
      using False kE by (intro power_int_increasing) simp_all
    finally have vE: "v \<le> 2 powi E" .
    have "(2::real) powi E = 2 powi (int p - 1) * u"
      unfolding u_def kE by (simp flip: power_int_add)
    also have "(2::real) powi (int p - 1) = of_int (2 ^ (p - 1))"
      using p1 by (simp add: power_int_def nat_diff_distrib)
    finally have Eu: "2 powi E = real_of_int (2 ^ (p - 1)) * u" .
    then have "real_of_int (2 ^ (p - 1)) \<le> w / u"
      using b u0 by (simp add: field_simps)
    then have "2 ^ (p - 1) \<le> \<lfloor>w / u\<rfloor>" by (simp only: le_floor_iff)
    then have "2 ^ (p - 1) \<le> rne (w / u)"
      using rne_ge_floor[of "w / u"] by linarith
    then have "real_of_int (2 ^ (p - 1)) \<le> real_of_int (rne (w / u))"
      by (simp only: of_int_le_iff)
    then have "real_of_int (2 ^ (p - 1)) * u \<le> real_of_int (rne (w / u)) * u"
      using u0 by (simp add: mult_right_mono)
    then have "v \<le> real_of_int (rne (w / u)) * u" using vE Eu by linarith
    then show ?thesis by (simp only: u_def kw_def)
  qed
qed

lemma round_to_ge:
  assumes vf: "valid_format f" and m: "0 \<le> m" "m \<le> 2 ^ prec f"
    and k: "1 - emax f - (int (prec f) - 1) \<le> k"
    and v: "v = of_int m * 2 powi k" and w: "0 < w" "v \<le> w"
  shows "fle (Fin v) (round_to f w)"
  using round_down_ge[OF assms] w(1)
  by (simp add: round_to_def Let_def)

lemma round_to_rep:
  assumes vf: "valid_format f" and t: "0 < t" and r: "round_to f t = Fin v"
  shows "\<exists>m k. 0 \<le> m \<and> m \<le> 2 ^ prec f \<and> 1 - emax f - (int (prec f) - 1) \<le> k
            \<and> v = of_int m * 2 powi k"
proof -
  define p where "p = prec f"
  define k where "k = ulp_exp f t"
  define u :: real where "u = 2 powi k"
  define E where "E = \<lfloor>log 2 t\<rfloor>"
  have u0: "0 < u" by (simp add: u_def)
  have kd: "k = max E (1 - emax f) - (int p - 1)"
    using t by (simp add: k_def ulp_exp_def E_def p_def)
  have "t < 2 powi (E + 1)" using log2_bounds[OF t] by (simp add: E_def)
  also have "\<dots> \<le> 2 powi (k + int p)"
    unfolding kd by (intro power_int_increasing) simp_all
  also have "\<dots> = 2 ^ p * u" by (simp add: u_def power_int_add)
  finally have "t / u < 2 ^ p" using u0 by (simp add: field_simps)
  then have "t / u < real_of_int (2 ^ p)" by simp
  then have "\<lfloor>t / u\<rfloor> < 2 ^ p" by (simp only: floor_less_iff)
  then have hi: "rne (t / u) \<le> 2 ^ p"
    using rne_le_floor1[of "t / u"] by linarith
  have lo: "0 \<le> rne (t / u)" using t u0 by (intro rne_nonneg) simp
  have "v = of_int (rne (t / u)) * u"
    using r t by (simp add: round_to_def Let_def u_def k_def split: if_splits)
  moreover have "1 - emax f - (int (prec f) - 1) \<le> k"
    unfolding kd p_def by simp
  ultimately show ?thesis using hi lo unfolding u_def p_def by blast
qed

lemma guard_dead:
  assumes vf: "valid_format f" and t: "0 \<le> t"
  shows "\<not> overflow_guard f (round_to f t)"
proof (cases "t = 0")
  case True
  have "round_to f 1 = Fin 1"
    using round_to_small_int[OF vf, of 1] by simp
  then show ?thesis using True by (simp add: overflow_guard_def round_to_zero)
next
  case False
  then have t0: "0 < t" using t by simp
  show ?thesis
  proof (cases "round_to f t")
    case (Fin v)
    obtain m k where mk: "0 \<le> m" "m \<le> 2 ^ prec f"
        "1 - emax f - (int (prec f) - 1) \<le> k" "v = of_int m * 2 powi k"
      using round_to_rep[OF vf t0 Fin] by blast
    have "0 \<le> v" unfolding mk(4) using mk(1) by simp
    then have "fle (Fin v) (round_to f (v + 1))"
      using round_to_ge[OF vf mk, of "v + 1"] by simp
    then show ?thesis
      using Fin by (simp add: overflow_guard_def fle_not_fless)
  next
    case PInf
    then show ?thesis by (simp add: overflow_guard_def)
  next
    case NInf
    then show ?thesis using t0 by (simp add: round_to_def Let_def split: if_splits)
  next
    case NaN
    then show ?thesis by (simp add: overflow_guard_def)
  qed
qed

section \<open>Tours\<close>

lemma randperm_loop_inv:
  "n \<le> length perm \<Longrightarrow> randperm_loop n i perm r = (perm', r') \<Longrightarrow>
     length perm' = length perm \<and> mset (take n perm') = mset (take n perm)
       \<and> drop n perm' = drop n perm"
proof (induction n i perm r rule: randperm_loop.induct)
  case (1 n i perm r)
  show ?case
  proof (cases "i < n")
    case False
    with "1.prems" show ?thesis by (simp add: randperm_loop.simps[of n i])
  next
    case True
    obtain v r1 where vr: "rand r = (v, r1)" by (cases "rand r")
    define j where "j = v mod (n - i) + i"
    have "v mod (n - i) < n - i" using True by simp
    then have jn: "j < n" unfolding j_def by linarith
    define perm1 where "perm1 = perm[i := perm ! j, j := perm ! i]"
    have len1: "length perm1 = length perm" by (simp add: perm1_def)
    have rec: "randperm_loop n (i + 1) perm1 r1 = (perm', r')"
      using "1.prems"(2) True vr
      by (simp add: randperm_loop.simps[of n i] j_def perm1_def Let_def)
    have ih: "length perm' = length perm1 \<and> mset (take n perm') = mset (take n perm1)
       \<and> drop n perm' = drop n perm1"
      using "1.IH"[OF True vr[symmetric] refl] "1.prems"(1) rec len1
      by (simp add: perm1_def j_def)
    have tk: "take n perm1 = (take n perm)[i := take n perm ! j, j := take n perm ! i]"
      using True jn by (simp add: perm1_def take_update_swap)
    have sw: "mset ((take n perm)[i := take n perm ! j, j := take n perm ! i]) = mset (take n perm)"
      using True jn "1.prems"(1) by (intro mset_swap) simp_all
    have "mset (take n perm1) = mset (take n perm)"
      by (simp only: tk sw)
    moreover have "drop n perm1 = drop n perm"
      using True jn by (simp add: perm1_def)
    ultimately show ?thesis using ih len1 by simp
  qed
qed

lemma randperm_perm:
  "randperm n perm r = (perm', r') \<Longrightarrow> n \<le> length perm \<Longrightarrow>
     length perm' = length perm \<and> mset (take n perm') = mset [0..<n]"
  using randperm_loop_inv[of n "[0..<n] @ drop n perm" 0 r perm' r']
  by (simp add: randperm_def)

lemma create_path_shape:
  assumes "create_path n h r = (p, h', r')"
  shows "p = brk h \<and> brk h' = Suc (brk h) \<and> (\<forall>q. q \<noteq> p \<longrightarrow> cells h' q = cells h q) \<and>
         (\<exists>a. cells h' p = Some a \<and> length a = n + 1
           \<and> mset (take n a) = mset [0..<n] \<and> a ! n = a ! 0)"
proof -
  obtain a r1 where rp: "randperm n (fresh (n + 1)) r = (a, r1)"
    by (cases "randperm n (fresh (n + 1)) r")
  have la: "length a = n + 1 \<and> mset (take n a) = mset [0..<n]"
    using randperm_perm[OF rp] by (simp add: fresh_def)
  have c: "cells h' p = Some (a[n := a ! 0])" "p = brk h" "brk h' = Suc (brk h)"
      "\<forall>q. q \<noteq> p \<longrightarrow> cells h' q = cells h q"
    using assms rp by (auto simp: create_path_def malloc_def Let_def)
  show ?thesis using la c by (cases "n = 0") (simp_all add: nth_list_update)
qed

text \<open>
  C4. For every \<open>N \<ge> 1\<close>, the block \<^verbatim>\<open>create_path\<close> returns has \<open>N + 1\<close> entries, its
  first \<open>N\<close> entries are a permutation of \<open>0..N-1\<close> (each city exactly once), and its
  last entry equals its first.
\<close>

theorem create_path_tour:
  assumes "1 \<le> n"
  shows "case create_path n h r of (p, h', r') \<Rightarrow>
           (\<exists>a. cells h' p = Some a \<and> length a = n + 1
              \<and> mset (take n a) = mset [0..<n] \<and> distinct (take n a)
              \<and> set (take n a) = {0..<n} \<and> a ! 0 = a ! n)"
proof -
  obtain p h' r' where cp: "create_path n h r = (p, h', r')"
    by (cases "create_path n h r") auto
  obtain a where a: "cells h' p = Some a" "length a = n + 1"
      "mset (take n a) = mset [0..<n]" "a ! n = a ! 0"
    using create_path_shape[OF cp] by blast
  have "distinct (take n a)"
    using a(3) by (metis distinct_upt mset_eq_imp_distinct_iff)
  moreover have "set (take n a) = {0..<n}"
    using a(3) by (metis mset_eq_setD set_upt)
  ultimately show ?thesis using cp a by simp
qed

theorem create_path_tour_witness:
  "(1::nat) \<le> 3 \<and>
   (case create_path 3 empty_heap (\<lambda>k. k) of (p, h', r') \<Rightarrow>
           (\<exists>a. cells h' p = Some a \<and> length a = 3 + 1
              \<and> mset (take 3 a) = mset [0..<3] \<and> distinct (take 3 a)
              \<and> set (take 3 a) = {0..<3} \<and> a ! 0 = a ! 3))"
  using create_path_tour[of 3 empty_heap "\<lambda>k. k"] by simp

section \<open>The distance table is the table of the rounded Euclidean distances\<close>

lemma dm_cols_row:
  "i < length distance \<Longrightarrow> j \<le> n \<Longrightarrow> length (distance ! i) = n \<Longrightarrow>
   dm_cols coord n i j distance =
     distance[i := take j (distance ! i) @ map (euclid coord i) [j..<n]]"
proof (induction coord n i j distance rule: dm_cols.induct)
  case (1 coord n i j distance)
  show ?case
  proof (cases "j < n")
    case False
    with "1.prems" have "j = n" by simp
    then show ?thesis using "1.prems"
      by (subst dm_cols.simps) (simp add: list_update_same_conv)
  next
    case True
    define D1 where "D1 = distance[i := (distance ! i)[j := euclid coord i j]]"
    have r: "D1 ! i = (distance ! i)[j := euclid coord i j]"
      using "1.prems"(1) by (simp add: D1_def)
    have "dm_cols coord n i (j + 1) D1 =
            D1[i := take (j + 1) (D1 ! i) @ map (euclid coord i) [j + 1..<n]]"
      using "1.IH"[OF True] True "1.prems" by (simp add: D1_def)
    moreover have "take (j + 1) (D1 ! i) = take j (distance ! i) @ [euclid coord i j]"
      using True "1.prems"(3) by (simp add: r take_Suc_conv_app_nth)
    moreover have "[j..<n] = j # [j + 1..<n]"
      using True by (simp add: upt_conv_Cons)
    ultimately show ?thesis
      using True by (simp add: dm_cols.simps[of coord n i j] D1_def)
  qed
qed

lemma dm_rows_table:
  "i \<le> n \<Longrightarrow> length distance = n \<Longrightarrow> \<forall>row \<in> set distance. length row = n \<Longrightarrow>
   dm_rows coord n i distance =
     take i distance @ map (\<lambda>k. map (euclid coord k) [0..<n]) [i..<n]"
proof (induction coord n i distance rule: dm_rows.induct)
  case (1 coord n i distance)
  show ?case
  proof (cases "i < n")
    case False
    with "1.prems" show ?thesis by (subst dm_rows.simps) simp
  next
    case True
    define D1 where "D1 = dm_cols coord n i 0 distance"
    have li: "length (distance ! i) = n"
      using True "1.prems" by simp
    have d1: "D1 = distance[i := map (euclid coord i) [0..<n]]"
      using dm_cols_row[of i distance 0 n coord] True "1.prems"(2) li by (simp add: D1_def)
    have rows: "\<forall>row \<in> set D1. length row = n"
      using "1.prems"(3) unfolding d1 by (auto dest!: set_update_subset_insert[THEN subsetD])
    have "dm_rows coord n (i + 1) D1 =
            take (i + 1) D1 @ map (\<lambda>k. map (euclid coord k) [0..<n]) [i + 1..<n]"
      using "1.IH"[OF True] True "1.prems"(2) rows d1 by (simp add: D1_def)
    moreover have "take (i + 1) D1 = take i distance @ [map (euclid coord i) [0..<n]]"
      using True "1.prems"(2) by (simp add: d1 take_Suc_conv_app_nth)
    moreover have "[i..<n] = i # [i + 1..<n]"
      using True by (simp add: upt_conv_Cons)
    ultimately show ?thesis
      using True by (simp add: dm_rows.simps[of coord n i] D1_def)
  qed
qed

lemma distance_matrix_eq:
  "distance_matrix coord n = map (\<lambda>i. map (euclid coord i) [0..<n]) [0..<n]"
  using dm_rows_table[of 0 n "replicate n (fresh n)" coord]
  by (simp add: distance_matrix_def fresh_def)

lemma distance_matrix_square: "square n (distance_matrix coord n)"
  by (auto simp: square_def distance_matrix_eq)

lemma distance_matrix_nth:
  "i < n \<Longrightarrow> j < n \<Longrightarrow> distance_matrix coord n ! i ! j = euclid coord i j"
  by (simp add: distance_matrix_eq)

lemma round_to_not_nan: "round_to f x \<noteq> NaN"
  by (simp add: round_to_def Let_def)

lemma round_to_Fin_bound:
  assumes "round_to f x = Fin v"
  shows "\<bar>v\<bar> < 2 powi (emax f + 1)"
proof (cases "x = 0")
  case True
  then have "v = 0" using assms by (simp add: round_to_zero)
  then show ?thesis by simp
next
  case False
  define y where "y = of_int (rne (\<bar>x\<bar> / 2 powi ulp_exp f x)) * (2::real) powi ulp_exp f x"
  have y0: "0 \<le> y"
    unfolding y_def by (intro mult_nonneg_nonneg) (simp_all add: rne_nonneg)
  have a: "\<not> 2 powi (emax f + 1) \<le> y" "v = sgn x * y"
    using assms False by (simp_all add: round_to_def Let_def y_def split: if_splits)
  have "\<bar>v\<bar> = y" using a(2) y0 False by (simp add: abs_mult)
  then show ?thesis using a(1) by simp
qed

lemma rne_le_of_less: "q < of_int n \<Longrightarrow> rne q \<le> n"
proof -
  assume "q < of_int n"
  then have "\<lfloor>q\<rfloor> < n" by (simp add: floor_less_iff)
  then show ?thesis using rne_le_floor1[of q] by linarith
qed

lemma round_to_le_pow2:
  assumes vf: "valid_format f" and x: "0 < x" "x \<le> 2 powi k"
    and k: "1 - emax f < k" "k \<le> emax f"
  shows "\<exists>v. round_to f x = Fin v \<and> 0 \<le> v \<and> v \<le> 2 powi k"
proof (cases "x = 2 powi k")
  case True
  have p: "1 \<le> prec f" using vf by (simp add: valid_format_def)
  have "x / 2 powi (k - (int (prec f) - 1)) = of_int (2 ^ (prec f - 1))"
    using p by (simp add: True power_int_diff power_int_minus of_nat_diff flip: power_int_of_nat)
  then have "round_to f x = Fin x"
    using round_to_exact[of x k f "2 ^ (prec f - 1)"] x(1) k
    by (simp add: True power_int_add)
  then show ?thesis using x by auto
next
  case False
  then have xl: "x < 2 powi k" using x(2) by simp
  define p where "p = prec f"
  define E where "E = \<lfloor>log 2 x\<rfloor>"
  define e where "e = max E (1 - emax f)"
  define u :: real where "u = 2 powi (e - (int p - 1))"
  have b: "2 powi E \<le> x" "x < 2 powi (E + 1)"
    using log2_bounds[OF x(1)] by (simp_all add: E_def)
  have Ek: "E < k"
  proof (rule ccontr)
    assume "\<not> E < k"
    then have "(2::real) powi k \<le> 2 powi E" by (intro power_int_increasing) simp_all
    then show False using b(1) xl by linarith
  qed
  have ek: "e + 1 \<le> k" using Ek k(1) by (simp add: e_def)
  have xe: "x < 2 powi (e + 1)"
  proof -
    have "(2::real) powi (E + 1) \<le> 2 powi (e + 1)"
      by (intro power_int_increasing) (simp_all add: e_def)
    then show ?thesis using b(2) by linarith
  qed
  have u0: "0 < u" by (simp add: u_def)
  have up: "of_int (2 ^ p) * u = 2 powi (e + 1)"
    by (simp add: u_def power_int_diff power_int_add power_int_minus flip: power_int_of_nat)
  have "x / u < of_int (2 ^ p)"
    using xe u0 up by (simp add: pos_divide_less_eq)
  then have r: "rne (x / u) \<le> 2 ^ p" by (rule rne_le_of_less)
  define y where "y = of_int (rne (x / u)) * u"
  have y0: "0 \<le> y"
    unfolding y_def using x(1) u0 by (intro mult_nonneg_nonneg) (simp_all add: rne_nonneg)
  have "y \<le> of_int (2 ^ p) * u"
    unfolding y_def using r u0 by (intro mult_right_mono) (simp_all flip: of_int_power)
  then have y1: "y \<le> 2 powi (e + 1)" using up by simp
  have "(2::real) powi (e + 1) \<le> 2 powi k"
    using ek by (intro power_int_increasing) simp_all
  then have yk: "y \<le> 2 powi k" using y1 by linarith
  have "(2::real) powi k < 2 powi (emax f + 1)"
    using k(2) by (intro power_int_strict_increasing) simp_all
  then have ny: "\<not> 2 powi (emax f + 1) \<le> y" using yk by linarith
  have "round_to f x = Fin y"
    using x(1) ny
    by (simp add: round_to_def ulp_exp_def Let_def y_def u_def e_def E_def p_def)
  then show ?thesis using y0 yk by auto
qed


lemma c_pow2_nonneg: "a \<noteq> NaN \<Longrightarrow> nonneg (c_pow2 a)"
  by (cases a) (simp_all add: round_to_nonneg)

lemma c_sqrt_nonneg: "nonneg a \<Longrightarrow> nonneg (c_sqrt a)"
  by (cases a) (simp_all add: round_to_nonneg)

lemma fcast_nonneg: "nonneg a \<Longrightarrow> nonneg (fcast f a)"
  by (cases a) (simp_all add: round_to_nonneg)

lemma fadd_nonneg: "nonneg a \<Longrightarrow> nonneg b \<Longrightarrow> nonneg (fadd f a b)"
  by (cases a; cases b) (simp_all add: round_to_nonneg)

lemma fadd_PInf: "nonneg b \<Longrightarrow> fadd f PInf b = PInf \<and> fadd f b PInf = PInf"
  by (cases b) simp_all

lemma c_pow2_infinite: "a \<noteq> NaN \<Longrightarrow> \<not> is_finite a \<Longrightarrow> c_pow2 a = PInf"
  by (cases a) simp_all

lemma euclid_nonneg:
  assumes "coord ! i = (Fin xi, Fin yi)" "coord ! j = (Fin xj, Fin yj)"
  shows "nonneg (euclid coord i j)"
  unfolding euclid_def
  by (intro fcast_nonneg c_sqrt_nonneg fadd_nonneg c_pow2_nonneg)
     (simp_all add: assms fsub_def round_to_not_nan)

lemma euclid_overflow:
  assumes "coord ! i = (Fin xi, Fin yi)" "coord ! j = (Fin xj, Fin yj)"
    and "\<not> is_finite (round_to binary32 (xi - xj)) \<or> \<not> is_finite (round_to binary32 (yi - yj))"
  shows "euclid coord i j = PInf"
proof -
  define a where "a = round_to binary32 (xi - xj)"
  define b where "b = round_to binary32 (yi - yj)"
  have n: "a \<noteq> NaN" "b \<noteq> NaN" by (simp_all add: a_def b_def round_to_not_nan)
  have e: "euclid coord i j = fcast binary32 (c_sqrt (fadd binary64 (c_pow2 a) (c_pow2 b)))"
    by (simp add: euclid_def assms(1,2) fsub_def a_def b_def)
  have "fadd binary64 (c_pow2 a) (c_pow2 b) = PInf"
    using assms(3) c_pow2_infinite[OF n(1)] c_pow2_infinite[OF n(2)]
      fadd_PInf[OF c_pow2_nonneg[OF n(1)]] fadd_PInf[OF c_pow2_nonneg[OF n(2)]]
    by (auto simp: a_def b_def)
  then show ?thesis by (simp add: e)
qed

lemma square_finite:
  assumes "round_to binary32 t = Fin d"
  shows "\<exists>s. round_to binary64 (d * d) = Fin s \<and> 0 \<le> s \<and> s \<le> 2 powi 256"
proof (cases "d = 0")
  case True
  then show ?thesis by (simp add: round_to_zero)
next
  case False
  have "\<bar>d\<bar> < 2 powi 128"
    using round_to_Fin_bound[OF assms] by (simp add: binary32_def)
  then have "\<bar>d\<bar> * \<bar>d\<bar> \<le> 2 powi 128 * 2 powi 128"
    by (intro mult_mono) simp_all
  then have "d * d \<le> 2 powi 256" by (simp flip: power_int_add)
  moreover have "0 < d * d" using False zero_less_mult_iff[of d d] by linarith
  ultimately show ?thesis
    using round_to_le_pow2[OF valid_binary64, of "d * d" 256]
    by (simp add: binary64_def)
qed

lemma euclid_chain:
  assumes "coord ! i = (Fin xi, Fin yi)" "coord ! j = (Fin xj, Fin yj)"
    and dx: "round_to binary32 (xi - xj) = Fin dx"
    and dy: "round_to binary32 (yi - yj) = Fin dy"
  shows "\<exists>sx sy s r. round_to binary64 (dx * dx) = Fin sx
           \<and> round_to binary64 (dy * dy) = Fin sy
           \<and> round_to binary64 (sx + sy) = Fin s
           \<and> round_to binary64 (sqrt s) = Fin r
           \<and> euclid coord i j = round_to binary32 r"
proof -
  obtain sx where sx: "round_to binary64 (dx * dx) = Fin sx" "0 \<le> sx" "sx \<le> 2 powi 256"
    using square_finite[OF dx] by blast
  obtain sy where sy: "round_to binary64 (dy * dy) = Fin sy" "0 \<le> sy" "sy \<le> 2 powi 256"
    using square_finite[OF dy] by blast
  have "\<exists>s. round_to binary64 (sx + sy) = Fin s \<and> 0 \<le> s \<and> s \<le> 2 powi 257"
  proof (cases "sx + sy = 0")
    case True
    then show ?thesis by (simp add: round_to_zero)
  next
    case False
    have "(2::real) powi 257 = 2 powi 256 + 2 powi 256"
      using power_int_add[of "2::real" 256 1] by simp
    then have "sx + sy \<le> 2 powi 257" using sx(3) sy(3) by linarith
    moreover have "0 < sx + sy" using False sx(2) sy(2) by linarith
    ultimately show ?thesis
      using round_to_le_pow2[OF valid_binary64, of "sx + sy" 257]
      by (simp add: binary64_def)
  qed
  then obtain s where s: "round_to binary64 (sx + sy) = Fin s" "0 \<le> s" "s \<le> 2 powi 257"
    by blast
  have "\<exists>r. round_to binary64 (sqrt s) = Fin r"
  proof (cases "s = 0")
    case True
    then show ?thesis by (simp add: round_to_zero)
  next
    case False
    have "(2::real) powi 257 \<le> 2 powi 258" by (intro power_int_increasing) simp_all
    moreover have "((2::real) powi 129)\<^sup>2 = 2 powi 258"
      by (simp add: power2_eq_square flip: power_int_add)
    ultimately have "s \<le> (2 powi 129)\<^sup>2" using s(3) by linarith
    then have "sqrt s \<le> 2 powi 129" by (intro real_le_lsqrt) simp_all
    moreover have "0 < sqrt s" using False s(2) by simp
    ultimately show ?thesis
      using round_to_le_pow2[OF valid_binary64, of "sqrt s" 129]
      by (auto simp: binary64_def)
  qed
  then obtain r where r: "round_to binary64 (sqrt s) = Fin r" by blast
  have "euclid coord i j = round_to binary32 r"
    using s(2) by (simp add: euclid_def assms(1,2) fsub_def dx dy sx(1) sy(1) s(1) r)
  then show ?thesis using sx(1) sy(1) s(1) r by blast
qed

lemma euclid_exact:
  assumes "coord ! i = (Fin xi, Fin yi)" "coord ! j = (Fin xj, Fin yj)"
    and "representable binary32 (xi - xj)" "representable binary32 (yi - yj)"
    and "representable binary64 ((xi - xj)\<^sup>2)" "representable binary64 ((yi - yj)\<^sup>2)"
    and "representable binary64 ((xi - xj)\<^sup>2 + (yi - yj)\<^sup>2)"
    and "representable binary64 (sqrt ((xi - xj)\<^sup>2 + (yi - yj)\<^sup>2))"
    and "representable binary32 (sqrt ((xi - xj)\<^sup>2 + (yi - yj)\<^sup>2))"
  shows "euclid coord i j = Fin (sqrt ((xi - xj)\<^sup>2 + (yi - yj)\<^sup>2))"
proof -
  have "0 \<le> (xi - xj) * (xi - xj) + (yi - yj) * (yi - yj)"
    by (intro add_nonneg_nonneg) simp_all
  then have "\<not> (xi - xj) * (xi - xj) + (yi - yj) * (yi - yj) < 0" by linarith
  then show ?thesis
    using assms(3-9)
    by (simp add: euclid_def assms(1,2) fsub_def representable_def power2_eq_square)
qed


lemma rne_near:
  assumes "\<bar>q - of_int m\<bar> < 1 / 2"
  shows "rne q = m"
proof (cases "of_int m \<le> q")
  case True
  have "\<lfloor>q\<rfloor> = m" using True assms by (intro floor_unique) linarith+
  then show ?thesis using assms True by (simp add: rne_def Let_def)
next
  case False
  have "\<lfloor>q\<rfloor> = m - 1" using False assms by (intro floor_unique) (simp, linarith)+
  then show ?thesis using assms False by (simp add: rne_def Let_def)
qed

lemma round_to_near:
  assumes x: "0 < x" "2 powi e \<le> x" "x < 2 powi (e + 1)"
    and e: "1 - emax f \<le> e" "e < emax f"
    and m: "\<bar>x / 2 powi (e - (int (prec f) - 1)) - of_int m\<bar> < 1 / 2" "m \<le> 2 ^ prec f"
  shows "round_to f x = Fin (of_int m * 2 powi (e - (int (prec f) - 1)))"
proof -
  define u :: real where "u = 2 powi (e - (int (prec f) - 1))"
  have u0: "0 < u" by (simp add: u_def)
  have up: "of_int (2 ^ prec f) * u = 2 powi (e + 1)"
    by (simp add: u_def power_int_diff power_int_add power_int_minus flip: power_int_of_nat)
  have "of_int m * u \<le> of_int (2 ^ prec f) * u"
    using m(2) u0 by (intro mult_right_mono) (simp_all flip: of_int_power)
  moreover have "(2::real) powi (e + 1) < 2 powi (emax f + 1)"
    using e(2) by (intro power_int_strict_increasing) simp_all
  ultimately have n: "\<not> 2 powi (emax f + 1) \<le> of_int m * u" using up by linarith
  show ?thesis
    using round_to_pos[OF x e(1)] rne_near[OF m(1)] n
    by (simp add: Let_def u_def)
qed

lemma sqrt2_bounds:
  "\<bar>sqrt 2 * 2 ^ 52 - 6369051672525773\<bar> < 1 / 2"
proof -
  have "((6369051672525773 - 1 / 2) / 2 ^ 52)\<^sup>2 < (2::real)"
    by (simp add: power2_eq_square)
  then have lo: "(6369051672525773 - 1 / 2) / 2 ^ 52 < sqrt 2"
    by (rule real_less_rsqrt)
  have "(2::real) < ((6369051672525773 + 1 / 2) / 2 ^ 52)\<^sup>2"
    by (simp add: power2_eq_square)
  then have hi: "sqrt 2 < (6369051672525773 + 1 / 2) / 2 ^ 52"
    by (intro real_less_lsqrt) simp_all
  have a: "sqrt 2 * 2 ^ 52 - 6369051672525773 < 1 / 2"
    using hi by (simp add: field_simps)
  have b: "- (sqrt 2 * 2 ^ 52 - 6369051672525773) < 1 / 2"
    using lo by (simp add: field_simps)
  show ?thesis using a b by (simp only: abs_less_iff)
qed

lemma sqrt2_64: "round_to binary64 (sqrt 2) = Fin (6369051672525773 / 2 ^ 52)"
proof -
  have s2: "sqrt 2 < 2" by (rule real_less_lsqrt) simp_all
  have a: "2 powi 0 \<le> sqrt 2" "sqrt 2 < 2 powi (0 + 1)"
    using s2 by simp_all
  have u: "(2::real) powi (0 - (int (prec binary64) - 1)) = 1 / 2 ^ 52"
    by (simp add: binary64_def power_int_def power_divide)
  have m: "\<bar>sqrt 2 / 2 powi (0 - (int (prec binary64) - 1)) - of_int 6369051672525773\<bar> < 1 / 2"
    unfolding u using sqrt2_bounds by simp
  have "round_to binary64 (sqrt 2)
          = Fin (of_int 6369051672525773 * 2 powi (0 - (int (prec binary64) - 1)))"
    by (rule round_to_near[OF _ a _ _ m]) (simp_all add: binary64_def)
  then show ?thesis unfolding u by simp
qed

lemma sqrt2_32:
  "round_to binary32 (6369051672525773 / 2 ^ 52) = Fin (11863283 / 2 ^ 23)"
proof -
  let ?x = "6369051672525773 / 2 ^ 52 :: real"
  have a: "0 < ?x" "2 powi 0 \<le> ?x" "?x < 2 powi (0 + 1)"
    by simp_all
  have u: "(2::real) powi (0 - (int (prec binary32) - 1)) = 1 / 2 ^ 23"
    by (simp add: binary32_def power_int_def power_divide)
  have q: "?x / (1 / 2 ^ 23) = 6369051672525773 / 2 ^ 29"
    by simp
  have d: "(6369051672525773 / 2 ^ 29 :: real) - 11863283 = 109001677 / 2 ^ 29"
    by simp
  have "\<bar>109001677 / 2 ^ 29 :: real\<bar> < 1 / 2"
    by simp
  then have m: "\<bar>?x / 2 powi (0 - (int (prec binary32) - 1)) - of_int 11863283\<bar> < 1 / 2"
    unfolding u q using d by simp
  have "round_to binary32 ?x
          = Fin (of_int 11863283 * 2 powi (0 - (int (prec binary32) - 1)))"
    by (rule round_to_near[OF a _ _ m]) (simp_all add: binary32_def)
  then show ?thesis unfolding u by simp
qed

lemma diagonal_table:
  "distance_matrix [(Fin 0, Fin 0), (Fin 1, Fin 1)] 2 ! 0 ! 1 = Fin (11863283 / 2 ^ 23)"
proof -
  have r: "round_to binary32 1 = Fin 1" "round_to binary64 1 = Fin 1"
      "round_to binary64 2 = Fin 2"
    using round32_nat[of 1] round64_nat[of 1] round64_nat[of 2] by simp_all
  have "euclid [(Fin 0, Fin 0), (Fin 1, Fin 1)] 0 1 = Fin (11863283 / 2 ^ 23)"
    using r sqrt2_64 sqrt2_32
    by (simp add: euclid_def fsub_def round_to_minus)
  then show ?thesis by (simp add: distance_matrix_nth)
qed

lemma sqrt2_not_float: "Fin (11863283 / 2 ^ 23) \<noteq> Fin (sqrt ((0 - 1)\<^sup>2 + (0 - 1)\<^sup>2))"
proof
  define c :: real where "c = 11863283 / 2 ^ 23"
  assume "Fin (11863283 / 2 ^ 23) = Fin (sqrt ((0 - 1)\<^sup>2 + (0 - 1)\<^sup>2))"
  then have "sqrt 2 = c" by (simp add: c_def)
  then have "c\<^sup>2 = 2"
    using real_sqrt_pow2[of 2] by simp
  then show False by (simp add: c_def power2_eq_square)
qed

lemma opposite_table:
  "distance_matrix [(Fin (2 ^ 127), Fin 0), (Fin (- (2 ^ 127)), Fin 0)] 2 ! 0 ! 1 = PInf"
proof -
  have "(2::real) powi (emax binary32 + 1) \<le> 2 ^ 127 - - (2 ^ 127)"
    by (simp add: binary32_def)
  then have "round_to binary32 (2 ^ 127 - - (2 ^ 127)) = PInf"
    by (rule round_to_overflow[OF valid_binary32])
  then have "\<not> is_finite (round_to binary32 (2 ^ 127 - - (2 ^ 127)))" by simp
  then have "euclid [(Fin (2 ^ 127), Fin 0), (Fin (- (2 ^ 127)), Fin 0)] 0 1 = PInf"
    by (intro euclid_overflow[where xi = "2 ^ 127" and yi = 0 and xj = "- (2 ^ 127)" and yj = 0])
       simp_all
  then show ?thesis by (simp add: distance_matrix_nth)
qed

lemma infinite_table: "distance_matrix [(PInf, Fin 0)] 1 ! 0 ! 0 = NaN"
  by (simp add: distance_matrix_nth euclid_def fsub_def)

text \<open>
  C3, as the code has it. For every list of \<open>N\<close> coordinate pairs and every pair
  \<open>(i, j)\<close> of indices below \<open>N\<close>, the table \<^verbatim>\<open>distance_matrix\<close> builds has \<open>N\<close> rows
  of \<open>N\<close> entries, all written, and the entries \<open>(i, j)\<close> and \<open>(j, i)\<close> are the same
  value. When the two cities have finite coordinates \<open>(xi, yi)\<close> and \<open>(xj, yj)\<close>, the
  entry is the expression of line 41 in the arithmetic of the program:
  \<^item> it is a non-negative number or \<open>+infinity\<close>, never a NaN, and zero when \<open>i = j\<close>;
  \<^item> it is \<open>+infinity\<close> when one of the \<^verbatim>\<open>float\<close> differences \<open>xi - xj\<close>, \<open>yi - yj\<close>
    overflows;
  \<^item> otherwise, with \<open>dx\<close> and \<open>dy\<close> the rounded differences, the squares \<open>dx * dx\<close> and
    \<open>dy * dy\<close>, their sum and the square root of that sum are each rounded to a finite
    \<^verbatim>\<open>double\<close>, and the entry is the root rounded to \<^verbatim>\<open>float\<close>;
  \<^item> it is exactly \<open>sqrt ((xi - xj)\<^sup>2 + (yi - yj)\<^sup>2)\<close> when every intermediate result
    is a number of its format.
\<close>

theorem distance_matrix_table:
  fixes coord :: "(fval \<times> fval) list"
  defines "N \<equiv> length coord"
  defines "D \<equiv> distance_matrix coord N"
  assumes "i < N" and "j < N"
  shows "square N D \<and> D ! i ! j = D ! j ! i
    \<and> (\<forall>xi yi xj yj. coord ! i = (Fin xi, Fin yi) \<longrightarrow> coord ! j = (Fin xj, Fin yj) \<longrightarrow>
          nonneg (D ! i ! j)
        \<and> (i = j \<longrightarrow> D ! i ! j = Fin 0)
        \<and> (\<not> is_finite (round_to binary32 (xi - xj))
             \<or> \<not> is_finite (round_to binary32 (yi - yj)) \<longrightarrow> D ! i ! j = PInf)
        \<and> (\<forall>dx dy. round_to binary32 (xi - xj) = Fin dx \<longrightarrow>
               round_to binary32 (yi - yj) = Fin dy \<longrightarrow>
               (\<exists>sx sy s r. round_to binary64 (dx * dx) = Fin sx
                  \<and> round_to binary64 (dy * dy) = Fin sy
                  \<and> round_to binary64 (sx + sy) = Fin s
                  \<and> round_to binary64 (sqrt s) = Fin r
                  \<and> D ! i ! j = round_to binary32 r))
        \<and> (representable binary32 (xi - xj) \<longrightarrow> representable binary32 (yi - yj) \<longrightarrow>
            representable binary64 ((xi - xj)\<^sup>2) \<longrightarrow> representable binary64 ((yi - yj)\<^sup>2) \<longrightarrow>
            representable binary64 ((xi - xj)\<^sup>2 + (yi - yj)\<^sup>2) \<longrightarrow>
            representable binary64 (sqrt ((xi - xj)\<^sup>2 + (yi - yj)\<^sup>2)) \<longrightarrow>
            representable binary32 (sqrt ((xi - xj)\<^sup>2 + (yi - yj)\<^sup>2)) \<longrightarrow>
            D ! i ! j = Fin (sqrt ((xi - xj)\<^sup>2 + (yi - yj)\<^sup>2))))"
proof -
  have e: "D ! i ! j = euclid coord i j" "D ! j ! i = euclid coord j i"
    using assms(3,4) by (simp_all add: D_def distance_matrix_nth)
  have sq: "square N D" by (simp add: D_def distance_matrix_square)
  have sy: "D ! i ! j = D ! j ! i" using euclid_sym[of coord i j] by (simp add: e)
  have fin: "nonneg (D ! i ! j)
        \<and> (i = j \<longrightarrow> D ! i ! j = Fin 0)
        \<and> (\<not> is_finite (round_to binary32 (xi - xj))
             \<or> \<not> is_finite (round_to binary32 (yi - yj)) \<longrightarrow> D ! i ! j = PInf)
        \<and> (\<forall>dx dy. round_to binary32 (xi - xj) = Fin dx \<longrightarrow>
               round_to binary32 (yi - yj) = Fin dy \<longrightarrow>
               (\<exists>sx sy s r. round_to binary64 (dx * dx) = Fin sx
                  \<and> round_to binary64 (dy * dy) = Fin sy
                  \<and> round_to binary64 (sx + sy) = Fin s
                  \<and> round_to binary64 (sqrt s) = Fin r
                  \<and> D ! i ! j = round_to binary32 r))
        \<and> (representable binary32 (xi - xj) \<longrightarrow> representable binary32 (yi - yj) \<longrightarrow>
            representable binary64 ((xi - xj)\<^sup>2) \<longrightarrow> representable binary64 ((yi - yj)\<^sup>2) \<longrightarrow>
            representable binary64 ((xi - xj)\<^sup>2 + (yi - yj)\<^sup>2) \<longrightarrow>
            representable binary64 (sqrt ((xi - xj)\<^sup>2 + (yi - yj)\<^sup>2)) \<longrightarrow>
            representable binary32 (sqrt ((xi - xj)\<^sup>2 + (yi - yj)\<^sup>2)) \<longrightarrow>
            D ! i ! j = Fin (sqrt ((xi - xj)\<^sup>2 + (yi - yj)\<^sup>2)))"
    if c: "coord ! i = (Fin xi, Fin yi)" "coord ! j = (Fin xj, Fin yj)" for xi yi xj yj
  proof -
    have 1: "nonneg (D ! i ! j)" unfolding e by (rule euclid_nonneg[OF c])
    have 2: "i = j \<longrightarrow> D ! i ! j = Fin 0"
      unfolding e using c(1) by (auto intro!: euclid_diag)
    have 3: "\<not> is_finite (round_to binary32 (xi - xj))
             \<or> \<not> is_finite (round_to binary32 (yi - yj)) \<longrightarrow> D ! i ! j = PInf"
      unfolding e using euclid_overflow[OF c] by blast
    have 4: "\<forall>dx dy. round_to binary32 (xi - xj) = Fin dx \<longrightarrow>
               round_to binary32 (yi - yj) = Fin dy \<longrightarrow>
               (\<exists>sx sy s r. round_to binary64 (dx * dx) = Fin sx
                  \<and> round_to binary64 (dy * dy) = Fin sy
                  \<and> round_to binary64 (sx + sy) = Fin s
                  \<and> round_to binary64 (sqrt s) = Fin r
                  \<and> D ! i ! j = round_to binary32 r)"
      unfolding e using euclid_chain[OF c] by blast
    have 5: "representable binary32 (xi - xj) \<longrightarrow> representable binary32 (yi - yj) \<longrightarrow>
            representable binary64 ((xi - xj)\<^sup>2) \<longrightarrow> representable binary64 ((yi - yj)\<^sup>2) \<longrightarrow>
            representable binary64 ((xi - xj)\<^sup>2 + (yi - yj)\<^sup>2) \<longrightarrow>
            representable binary64 (sqrt ((xi - xj)\<^sup>2 + (yi - yj)\<^sup>2)) \<longrightarrow>
            representable binary32 (sqrt ((xi - xj)\<^sup>2 + (yi - yj)\<^sup>2)) \<longrightarrow>
            D ! i ! j = Fin (sqrt ((xi - xj)\<^sup>2 + (yi - yj)\<^sup>2))"
      unfolding e using euclid_exact[OF c] by blast
    show ?thesis using 1 2 3 4 5 by (intro conjI)
  qed
  show ?thesis using sq sy fin by (intro conjI allI impI) blast+
qed

theorem distance_matrix_table_witness:
  "(0::nat) < 2 \<and> (1::nat) < 2
   \<and> representable binary32 (0 - 3) \<and> representable binary32 (0 - 4)
   \<and> representable binary64 ((0 - 3)\<^sup>2) \<and> representable binary64 ((0 - 4)\<^sup>2)
   \<and> representable binary64 ((0 - 3)\<^sup>2 + (0 - 4)\<^sup>2)
   \<and> representable binary64 (sqrt ((0 - 3)\<^sup>2 + (0 - 4)\<^sup>2))
   \<and> representable binary32 (sqrt ((0 - 3)\<^sup>2 + (0 - 4)\<^sup>2))
   \<and> sqrt ((0 - 3)\<^sup>2 + (0 - 4)\<^sup>2) = 5
   \<and> square 2 (distance_matrix [(Fin 0, Fin 0), (Fin 3, Fin 4)] 2)
   \<and> distance_matrix [(Fin 0, Fin 0), (Fin 3, Fin 4)] 2 ! 0 ! 1
       = Fin (sqrt ((0 - 3)\<^sup>2 + (0 - 4)\<^sup>2))
   \<and> distance_matrix [(Fin 0, Fin 0), (Fin 3, Fin 4)] 2 ! 0 ! 1
       = distance_matrix [(Fin 0, Fin 0), (Fin 3, Fin 4)] 2 ! 1 ! 0
   \<and> distance_matrix [(Fin 0, Fin 0), (Fin 3, Fin 4)] 2 ! 0 ! 0 = Fin 0
   \<and> distance_matrix [(Fin 0, Fin 0), (Fin 3, Fin 4)] 2 ! 1 ! 1 = Fin 0"
proof -
  let ?c = "[(Fin 0, Fin 0), (Fin 3, Fin 4)]"
  let ?d = "sqrt ((0 - 3)\<^sup>2 + (0 - 4)\<^sup>2) :: real"
  have len: "length ?c = 2" by simp
  have lt: "(0::nat) < 2" "(1::nat) < 2" by simp_all
  have c: "?c ! 0 = (Fin 0, Fin 0)" "?c ! 1 = (Fin 3, Fin 4)" by simp_all
  have q: "?d = 5" using real_sqrt_abs[of 5] by (simp add: power2_eq_square)
  have r: "representable binary32 (0 - 3)" "representable binary32 (0 - 4)"
      "representable binary64 ((0 - 3)\<^sup>2)" "representable binary64 ((0 - 4)\<^sup>2)"
      "representable binary64 ((0 - 3)\<^sup>2 + (0 - 4)\<^sup>2)"
    using round32_nat[of 3] round32_nat[of 4] round64_nat[of 9] round64_nat[of 16]
      round64_nat[of 25]
    by (simp_all add: representable_def round_to_minus)
  have r5: "representable binary64 ?d" "representable binary32 ?d"
    unfolding q using round64_nat[of 5] round32_nat[of 5]
    by (simp_all add: representable_def)
  note t01 = distance_matrix_table[of 0 ?c 1, unfolded len, OF lt]
  note t00 = distance_matrix_table[of 0 ?c 0, unfolded len, OF lt(1) lt(1)]
  note t11 = distance_matrix_table[of 1 ?c 1, unfolded len, OF lt(2) lt(2)]
  note f01 = t01[THEN conjunct2, THEN conjunct2, rule_format, OF c]
  note f00 = t00[THEN conjunct2, THEN conjunct2, rule_format, OF c(1) c(1)]
  note f11 = t11[THEN conjunct2, THEN conjunct2, rule_format, OF c(2) c(2)]
  have e: "distance_matrix ?c 2 ! 0 ! 1 = Fin ?d"
    by (rule f01[THEN conjunct2, THEN conjunct2, THEN conjunct2, THEN conjunct2,
          rule_format, OF r r5])
  have z: "distance_matrix ?c 2 ! 0 ! 0 = Fin 0" "distance_matrix ?c 2 ! 1 ! 1 = Fin 0"
    using f00[THEN conjunct2, THEN conjunct1] f11[THEN conjunct2, THEN conjunct1]
    by simp_all
  show ?thesis
    using lt r r5 q t01[THEN conjunct1] t01[THEN conjunct2, THEN conjunct1] e z
    by (intro conjI)
qed

text \<open>
  C3, as the spec states it, gives the entry as the exact root for every list of
  coordinates. Three tables show what the arithmetic does instead. For the cities
  \<open>(0, 0)\<close> and \<open>(1, 1)\<close> the entry is the \<^verbatim>\<open>float\<close> nearest to the square root of two,
  \<open>11863283 / 2^23\<close>, which is not the root. For the cities \<open>(2^127, 0)\<close> and
  \<open>(-2^127, 0)\<close>, both \<^verbatim>\<open>float\<close> numbers, the difference \<open>2^128\<close> is beyond
  \<^verbatim>\<open>FLT_MAX\<close> and the entry is \<open>+infinity\<close>, where the formula gives \<open>2^128\<close>. For a
  city with an infinite coordinate the diagonal entry is \<open>inf - inf\<close>, a NaN, and not
  zero.
\<close>

theorem distance_matrix_inexact:
  "distance_matrix [(Fin 0, Fin 0), (Fin 1, Fin 1)] 2 ! 0 ! 1 = Fin (11863283 / 2 ^ 23)
   \<and> Fin (11863283 / 2 ^ 23) \<noteq> Fin (sqrt ((0 - 1)\<^sup>2 + (0 - 1)\<^sup>2))
   \<and> representable binary32 (2 ^ 127) \<and> representable binary32 (- (2 ^ 127))
   \<and> distance_matrix [(Fin (2 ^ 127), Fin 0), (Fin (- (2 ^ 127)), Fin 0)] 2 ! 0 ! 1 = PInf
   \<and> sqrt ((2 ^ 127 - - (2 ^ 127))\<^sup>2 + (0 - 0)\<^sup>2) = 2 ^ 128
   \<and> distance_matrix [(PInf, Fin 0)] 1 ! 0 ! 0 = NaN"
proof -
  have r: "representable binary32 (2 ^ 127)" "representable binary32 (- (2 ^ 127))"
    using pow2_32[of 127] by (simp_all add: representable_def round_to_minus)
  have "(2::real) ^ 127 - - (2 ^ 127) = 2 ^ 128" by simp
  then have q: "sqrt ((2 ^ 127 - - (2 ^ 127))\<^sup>2 + (0 - 0)\<^sup>2) = (2::real) ^ 128"
    by (simp only: diff_self zero_power2 add_0_right real_sqrt_abs) simp
  show ?thesis
    using diagonal_table sqrt2_not_float r opposite_table q infinite_table
    by (intro conjI)
qed

section \<open>The measured length is the sum of the edges\<close>

lemma foldl_fadd_nonneg:
  "nonneg l \<Longrightarrow> \<forall>d \<in> set ds. nonneg d \<Longrightarrow> nonneg (foldl (fadd f) l ds)"
  by (induction ds arbitrary: l) (simp_all add: fadd_nonneg)

lemma measure_loop_fold:
  "valid_tour n path \<Longrightarrow> square n distance \<Longrightarrow> i \<le> n \<Longrightarrow>
   measure_loop distance n path i l =
     Some (foldl (fadd binary32) l
             (map (\<lambda>k. distance ! (path ! k) ! (path ! (k + 1))) [i..<n]))"
proof (induction distance n path i l rule: measure_loop.induct)
  case (1 distance n path i l)
  show ?case
  proof (cases "i < n")
    case False
    with "1.prems" show ?thesis by (subst measure_loop.simps) simp
  next
    case True
    have a: "i + 1 < length path" "path ! i < n" "path ! (i + 1) < n"
      using True "1.prems"(1) by (simp_all add: valid_tour_def)
    have b: "path ! i < length distance" "path ! (i + 1) < length (distance ! (path ! i))"
      using a "1.prems"(2) by (simp_all add: square_def)
    have "[i..<n] = i # [i + 1..<n]"
      using True by (simp add: upt_conv_Cons)
    then show ?thesis
      using "1.IH"[OF True _ "1.prems"(1,2)] True a(1) b
      by (subst measure_loop.simps) simp
  qed
qed

lemma measure_path_fold:
  "valid_tour n path \<Longrightarrow> square n distance \<Longrightarrow>
   measure_path distance n path = Some (foldl (fadd binary32) (Fin 0) (edges distance n path))"
  by (simp add: measure_path_def edges_def measure_loop_fold)

lemma edges_nonneg:
  assumes "valid_tour n path" "square n distance"
    and "\<forall>i < n. \<forall>j < n. nonneg (distance ! i ! j)"
  shows "\<forall>d \<in> set (edges distance n path). nonneg d"
proof -
  have "nonneg (distance ! (path ! k) ! (path ! (k + 1)))" if "k < n" for k
  proof -
    have "path ! k < n" "path ! (k + 1) < n"
      using that assms(1) by (simp_all add: valid_tour_def)
    then show ?thesis using assms(3) by simp
  qed
  then show ?thesis by (auto simp: edges_def)
qed

lemma pow2_64: "e \<le> 1023 \<Longrightarrow> round_to binary64 (2 ^ e) = Fin (2 ^ e)"
proof -
  assume e: "e \<le> 1023"
  have "(2::real) ^ e / 2 powi (int e - (int (prec binary64) - 1)) = of_int (2 ^ 52)"
    by (simp add: binary64_def power_int_diff)
  then show ?thesis
    using e round_to_exact[of "2 ^ e" "int e" binary64 "2 ^ 52"]
    by (simp add: binary64_def power_int_add)
qed

lemma upt2: "[0..<2] = [0, 1]"
  by (simp add: upt_rec)

lemma far_table:
  "distance_matrix [(Fin 0, Fin 0), (Fin (2 ^ 127), Fin 0)] 2
     = [[Fin 0, Fin (2 ^ 127)], [Fin (2 ^ 127), Fin 0]]"
proof -
  let ?c = "[(Fin 0, Fin 0), (Fin (2 ^ 127), Fin 0)]"
  have r: "round_to binary32 (2 ^ 127) = Fin (2 ^ 127)"
      "round_to binary64 (2 ^ 254) = Fin (2 ^ 254)"
      "round_to binary64 (2 ^ 127) = Fin (2 ^ 127)"
    using pow2_32[of 127] pow2_64[of 254] pow2_64[of 127] by simp_all
  have "sqrt ((2 ^ 127) ^ 2) = (2::real) ^ 127" by (simp only: real_sqrt_abs) simp
  then have q: "sqrt (2 ^ 254) = (2::real) ^ 127" by simp
  have e: "euclid ?c 0 1 = Fin (2 ^ 127)"
    using r q by (simp add: euclid_def fsub_def round_to_minus round_to_zero)
  have d: "euclid ?c 0 0 = Fin 0" "euclid ?c 1 1 = Fin 0"
    by (simp_all add: euclid_diag)
  show ?thesis
    using e d euclid_sym[of ?c 1 0] by (simp add: distance_matrix_eq upt2)
qed

text \<open>
  C2, as the code has it. For a tour of \<open>N + 1\<close> indices below \<open>N\<close> and an \<open>N\<close> by
  \<open>N\<close> table of non-negative entries, \<^verbatim>\<open>measure_path\<close> returns the sum of the \<open>N\<close>
  entries \<open>table[tour[i]][tour[i+1]]\<close>, added from left to right in \<^verbatim>\<open>float\<close>
  arithmetic, starting from zero; the result is non-negative. The model returns this
  value and nothing else, as the code writes to nothing but its locals.
\<close>

theorem measure_path_sum:
  assumes "valid_tour n path" and "square n distance"
    and "\<forall>i < n. \<forall>j < n. nonneg (distance ! i ! j)"
  shows "measure_path distance n path
           = Some (foldl (fadd binary32) (Fin 0) (edges distance n path))
       \<and> nonneg (foldl (fadd binary32) (Fin 0) (edges distance n path))"
  using assms by (simp add: measure_path_fold foldl_fadd_nonneg edges_nonneg)


theorem measure_path_sum_witness:
  "valid_tour 2 [0, 1, 0] \<and> square 2 [[Fin 0, Fin 5], [Fin 5, Fin 0]]
   \<and> nonneg (Fin 0) \<and> nonneg (Fin 5)
   \<and> measure_path [[Fin 0, Fin 5], [Fin 5, Fin 0]] 2 [0, 1, 0] = Some (Fin 10)"
proof -
  let ?d = "[[Fin 0, Fin 5], [Fin 5, Fin 0]]"
  have v: "valid_tour 2 [0, 1, 0]" by (simp add: valid_tour_def)
  have s: "square 2 ?d" by (simp add: square_def)
  have n: "\<forall>i < 2. \<forall>j < 2. nonneg (?d ! i ! j)"
    by (simp add: less_Suc_eq numeral_2_eq_2)
  have r: "round_to binary32 5 = Fin 5" "round_to binary32 10 = Fin 10"
    using round32_nat[of 5] round32_nat[of 10] by simp_all
  show ?thesis
    using measure_path_sum[OF v s n] v s r by (simp add: edges_def upt2)
qed

text \<open>
  C2, as the spec states it, also says that the result is finite. It is not when the
  \<^verbatim>\<open>float\<close> sum overflows: for the two cities \<open>(0, 0)\<close> and \<open>(2^127, 0)\<close> the table
  \<^verbatim>\<open>distance_matrix\<close> builds holds the finite distance \<open>2^127\<close>, and the tour
  \<open>0, 1, 0\<close> measures \<open>2^127 + 2^127\<close>, which is beyond \<^verbatim>\<open>FLT_MAX\<close>: the result is
  \<open>+infinity\<close>.
\<close>

theorem measure_path_overflow:
  "valid_tour 2 [0, 1, 0]
   \<and> square 2 (distance_matrix [(Fin 0, Fin 0), (Fin (2 ^ 127), Fin 0)] 2)
   \<and> distance_matrix [(Fin 0, Fin 0), (Fin (2 ^ 127), Fin 0)] 2
        = [[Fin 0, Fin (2 ^ 127)], [Fin (2 ^ 127), Fin 0]]
   \<and> measure_path (distance_matrix [(Fin 0, Fin 0), (Fin (2 ^ 127), Fin 0)] 2) 2 [0, 1, 0]
        = Some PInf
   \<and> \<not> is_finite PInf"
proof -
  have a: "round_to binary32 (2 ^ 127) = Fin (2 ^ 127)"
    using pow2_32[of 127] by simp
  have b: "round_to binary32 (2 ^ 127 + 2 ^ 127) = PInf"
    by (rule round_to_overflow[OF valid_binary32]) (simp add: binary32_def)
  have v: "valid_tour 2 [0, 1, 0]" by (simp add: valid_tour_def)
  have s: "square 2 [[Fin 0, Fin (2 ^ 127)], [Fin (2 ^ 127), Fin 0]]"
    by (simp add: square_def)
  have "measure_path [[Fin 0, Fin (2 ^ 127)], [Fin (2 ^ 127), Fin 0]] 2 [0, 1, 0] = Some PInf"
    using measure_path_fold[OF v s] a b by (simp add: edges_def upt2)
  then show ?thesis
    using v s by (simp only: far_table is_finite.simps) simp
qed

section \<open>Rotating and reversing a tour\<close>

lemma closed_tour_split:
  assumes "1 \<le> n" "closed_tour n path"
  shows "path = butlast path @ [butlast path ! 0] \<and> length (butlast path) = n
         \<and> (\<forall>c \<in> set (butlast path). c < n)"
proof -
  have len: "length path = n + 1" and lt: "\<forall>c \<in> set path. c < n"
    and cl: "path ! n = path ! 0"
    using assms(2) by (simp_all add: closed_tour_def valid_tour_def)
  have ne: "path \<noteq> []" using len by auto
  have "last path = path ! n" using len ne by (simp add: last_conv_nth)
  moreover have "butlast path ! 0 = path ! 0"
    using assms(1) len by (simp add: nth_butlast)
  ultimately have "path = butlast path @ [butlast path ! 0]"
    using cl ne append_butlast_last_id[of path] by simp
  moreover have "\<forall>c \<in> set (butlast path). c < n"
    using lt by (auto dest: in_set_butlastD)
  ultimately show ?thesis using len by simp
qed

lemma edges_cycle:
  assumes "1 \<le> n" "length c = n"
  shows "edges distance n (c @ [c ! 0])
           = map (\<lambda>i. distance ! (c ! i) ! (c ! ((i + 1) mod n))) [0..<n]"
proof -
  have "(c @ [c ! 0]) ! i = c ! i \<and> (c @ [c ! 0]) ! (i + 1) = c ! ((i + 1) mod n)"
    if "i < n" for i
  proof (cases "i + 1 < n")
    case True
    then show ?thesis using assms(2) that by (simp add: nth_append)
  next
    case False
    with that have "i + 1 = n" by simp
    then show ?thesis using assms that by (simp add: nth_append)
  qed
  then show ?thesis by (simp add: edges_def)
qed

lemma edges_rotate:
  assumes "1 \<le> n" "length c = n"
  shows "edges distance n (rotate k c @ [rotate k c ! 0])
           = rotate k (edges distance n (c @ [c ! 0]))"
proof -
  let ?g = "\<lambda>j. distance ! (c ! j) ! (c ! ((j + 1) mod n))"
  have lr: "length (rotate k c) = n" using assms(2) by simp
  have "edges distance n (rotate k c @ [rotate k c ! 0])
          = map (\<lambda>i. ?g ((k + i) mod n)) [0..<n]"
  proof -
    have md: "(k + Suc i mod n) mod n = Suc ((k + i) mod n) mod n" for i
      by (simp add: mod_simps)
    have "Suc i mod n < n" for i using assms(1) by simp
    then show ?thesis
      unfolding edges_cycle[OF assms(1) lr] using assms(2) by (simp add: nth_rotate md)
  qed
  also have "\<dots> = rotate k (map ?g [0..<n])"
    by (rule nth_equalityI) (simp_all add: nth_rotate)
  finally show ?thesis by (simp add: edges_cycle[OF assms])
qed

lemma mset_rotate_eq: "mset (rotate k xs) = mset xs"
proof -
  have "mset (rotate k xs)
          = mset (drop (k mod length xs) xs) + mset (take (k mod length xs) xs)"
    by (simp add: rotate_drop_take)
  also have "\<dots> = mset (take (k mod length xs) xs @ drop (k mod length xs) xs)"
    by (simp only: mset_append add.commute)
  finally show ?thesis by simp
qed

lemma mset_sum_list_map:
  fixes f :: "'a \<Rightarrow> real"
  assumes "mset xs = mset ys"
  shows "sum_list (map f xs) = sum_list (map f ys)"
proof -
  have "sum_mset (image_mset f (mset xs)) = sum_mset (image_mset f (mset ys))"
    using assms by simp
  then show ?thesis by (simp only: mset_map[symmetric] sum_mset_sum_list)
qed

lemma edges_rev:
  assumes "valid_tour n path" "symmetric n distance"
  shows "edges distance n (rev path) = rev (edges distance n path)"
proof (rule nth_equalityI)
  show "length (edges distance n (rev path)) = length (rev (edges distance n path))"
    by (simp add: edges_def)
next
  fix i assume "i < length (edges distance n (rev path))"
  then have i: "i < n" by (simp add: edges_def)
  have len: "length path = n + 1" and lt: "\<forall>c \<in> set path. c < n"
    using assms(1) by (simp_all add: valid_tour_def)
  have a: "rev path ! i = path ! (n - i)" "rev path ! (i + 1) = path ! (n - i - 1)"
    using i len by (simp_all add: rev_nth)
  have b: "path ! (n - i) < n" "path ! (n - i - 1) < n"
    using lt len i by simp_all
  have "distance ! (path ! (n - i)) ! (path ! (n - i - 1))
          = distance ! (path ! (n - i - 1)) ! (path ! (n - i))"
    using assms(2) b by (simp add: symmetric_def)
  moreover have "n - Suc i + 1 = n - i" using i by simp
  ultimately show "edges distance n (rev path) ! i = rev (edges distance n path) ! i"
    using i a by (simp add: edges_def rev_nth)
qed

lemma closed_tour_rotate:
  assumes "1 \<le> n" "closed_tour n path"
  shows "closed_tour n (rotate_tour k path)"
proof -
  let ?c = "butlast path"
  have s: "length ?c = n" "\<forall>c \<in> set ?c. c < n"
    using closed_tour_split[OF assms] by simp_all
  have "rotate k ?c ! 0 \<in> set (rotate k ?c)"
    using s(1) assms(1) by (intro nth_mem) simp
  then have "rotate k ?c ! 0 < n" using s(2) by simp
  then show ?thesis
    using s by (simp add: closed_tour_def valid_tour_def rotate_tour_def Let_def nth_append)
qed

lemma closed_tour_rev:
  assumes "closed_tour n path"
  shows "closed_tour n (reverse_tour path)"
proof -
  have len: "length path = n + 1" and cl: "path ! n = path ! 0"
    using assms by (simp_all add: closed_tour_def valid_tour_def)
  then have "rev path ! n = rev path ! 0" by (simp add: rev_nth)
  then show ?thesis
    using assms by (simp add: closed_tour_def valid_tour_def reverse_tour_def)
qed

lemma round32_ties:
  "round_to binary32 16777217 = Fin 16777216"
  "round_to binary32 16777219 = Fin 16777220"
  "round_to binary32 33554434 = Fin 33554432"
  "round_to binary32 33554433 = Fin 33554432"
  "round_to binary32 16777218 = Fin 16777218"
  "round_to binary32 33554436 = Fin 33554436"
  using round_to_pos[of 16777217 24 binary32] round_to_pos[of 16777219 24 binary32]
    round_to_pos[of 33554434 25 binary32] round_to_pos[of 33554433 25 binary32]
    round_to_pos[of 16777218 24 binary32] round_to_pos[of 33554436 25 binary32]
  by (simp_all add: binary32_def rne_def Let_def)

lemma upt3: "[0..<3] = [0, 1, 2]"
  by (simp add: upt_rec)

lemma line_table:
  "distance_matrix [(Fin 0, Fin 0), (Fin 1, Fin 0), (Fin 16777218, Fin 0)] 3
     = [[Fin 0, Fin 1, Fin 16777218],
        [Fin 1, Fin 0, Fin 16777216],
        [Fin 16777218, Fin 16777216, Fin 0]]"
proof -
  let ?c = "[(Fin 0, Fin 0), (Fin 1, Fin 0), (Fin 16777218, Fin 0)]"
  have r: "round_to binary32 1 = Fin 1" "round_to binary64 1 = Fin 1"
      "round_to binary32 16777216 = Fin 16777216"
      "round_to binary64 16777216 = Fin 16777216"
      "round_to binary64 16777218 = Fin 16777218"
      "round_to binary64 (16777216 * 16777216) = Fin (16777216 * 16777216)"
      "round_to binary64 (16777218 * 16777218) = Fin (16777218 * 16777218)"
    using round32_nat[of 1] round64_nat[of 1] round32_nat[of 16777216]
      round64_nat[of 16777216] round64_nat[of 16777218]
      round64_nat[of "16777216 * 16777216"] round64_nat[of "16777218 * 16777218"]
    by simp_all
  have q: "sqrt (16777216 * 16777216) = 16777216" "sqrt (16777218 * 16777218) = 16777218"
    by simp_all
  have e01: "euclid ?c 0 1 = Fin 1"
    using r by (simp add: euclid_def fsub_def round_to_minus round_to_zero)
  have e02: "euclid ?c 0 2 = Fin 16777218"
    using r q round32_ties
    by (simp add: euclid_def fsub_def round_to_minus round_to_zero)
  have e12: "euclid ?c 1 2 = Fin 16777216"
    using r q round32_ties
    by (simp add: euclid_def fsub_def round_to_minus round_to_zero)
  have d: "euclid ?c 0 0 = Fin 0" "euclid ?c 1 1 = Fin 0" "euclid ?c 2 2 = Fin 0"
    by (simp_all add: euclid_diag)
  show ?thesis
    using e01 e02 e12 d euclid_sym[of ?c 1 0] euclid_sym[of ?c 2 0] euclid_sym[of ?c 2 1]
    by (simp add: distance_matrix_eq upt3)
qed

lemma line_table_ok:
  "square 3 [[Fin 0, Fin 1, Fin 16777218], [Fin 1, Fin 0, Fin 16777216],
             [Fin 16777218, Fin 16777216, Fin 0]]"
  "symmetric 3 [[Fin 0, Fin 1, Fin 16777218], [Fin 1, Fin 0, Fin 16777216],
                [Fin 16777218, Fin 16777216, Fin 0]]"
  by (simp_all add: square_def symmetric_def less_Suc_eq numeral_3_eq_3)

text \<open>
  C9, as the code has it. Over a symmetric table, the same cycle started from another
  city, or walked backwards, is again a closed tour, and \<^verbatim>\<open>measure_path\<close> adds the
  same distances for it, each as many times: only the order of the additions changes.
  The sums are equal in exact arithmetic, and the total \<^verbatim>\<open>measure_path\<close> returns is the
  \<^verbatim>\<open>float\<close> sum in the order of the tour.
\<close>

theorem measure_path_cycle:
  assumes "1 \<le> n" and "closed_tour n path" and "square n distance"
    and "symmetric n distance"
  shows "closed_tour n (rotate_tour k path) \<and> closed_tour n (reverse_tour path)
    \<and> mset (edges distance n (rotate_tour k path)) = mset (edges distance n path)
    \<and> mset (edges distance n (reverse_tour path)) = mset (edges distance n path)
    \<and> exact_sum distance n (rotate_tour k path) = exact_sum distance n path
    \<and> exact_sum distance n (reverse_tour path) = exact_sum distance n path
    \<and> measure_path distance n (rotate_tour k path)
        = Some (foldl (fadd binary32) (Fin 0) (edges distance n (rotate_tour k path)))
    \<and> measure_path distance n (reverse_tour path)
        = Some (foldl (fadd binary32) (Fin 0) (edges distance n (reverse_tour path)))"
proof -
  let ?c = "butlast path"
  have s: "path = ?c @ [?c ! 0]" "length ?c = n"
    using closed_tour_split[OF assms(1,2)] by simp_all
  have v: "valid_tour n path" using assms(2) by (simp add: closed_tour_def)
  have r: "closed_tour n (rotate_tour k path)" by (rule closed_tour_rotate[OF assms(1,2)])
  have b: "closed_tour n (reverse_tour path)" by (rule closed_tour_rev[OF assms(2)])
  have "edges distance n (rotate_tour k path) = rotate k (edges distance n (?c @ [?c ! 0]))"
    using edges_rotate[OF assms(1) s(2)] by (simp add: rotate_tour_def Let_def)
  then have m1: "mset (edges distance n (rotate_tour k path)) = mset (edges distance n path)"
    using s(1) by (simp add: mset_rotate_eq)
  have m2: "mset (edges distance n (reverse_tour path)) = mset (edges distance n path)"
    using edges_rev[OF v assms(4)] by (simp add: reverse_tour_def)
  have x: "exact_sum distance n (rotate_tour k path) = exact_sum distance n path"
      "exact_sum distance n (reverse_tour path) = exact_sum distance n path"
    unfolding exact_sum_def
    by (rule mset_sum_list_map[OF m1], rule mset_sum_list_map[OF m2])
  show ?thesis
    using r b m1 m2 x assms(3)
    by (simp add: closed_tour_def measure_path_fold)
qed

theorem measure_path_cycle_witness:
  "(1::nat) \<le> 3 \<and> closed_tour 3 [0, 1, 2, 0]
   \<and> square 3 [[Fin 0, Fin 1, Fin 16777218], [Fin 1, Fin 0, Fin 16777216],
                [Fin 16777218, Fin 16777216, Fin 0]]
   \<and> symmetric 3 [[Fin 0, Fin 1, Fin 16777218], [Fin 1, Fin 0, Fin 16777216],
                   [Fin 16777218, Fin 16777216, Fin 0]]
   \<and> rotate_tour 2 [0, 1, 2, 0] = [2, 0, 1, 2]
   \<and> mset (edges [[Fin 0, Fin 1, Fin 16777218], [Fin 1, Fin 0, Fin 16777216],
                    [Fin 16777218, Fin 16777216, Fin 0]] 3 [2, 0, 1, 2])
       = mset (edges [[Fin 0, Fin 1, Fin 16777218], [Fin 1, Fin 0, Fin 16777216],
                      [Fin 16777218, Fin 16777216, Fin 0]] 3 [0, 1, 2, 0])"
proof -
  let ?d = "[[Fin 0, Fin 1, Fin 16777218], [Fin 1, Fin 0, Fin 16777216],
             [Fin 16777218, Fin 16777216, Fin 0]]"
  have c: "closed_tour 3 [0, 1, 2, 0]" by (simp add: closed_tour_def valid_tour_def)
  have r: "rotate_tour 2 [0, 1, 2, 0] = [2, 0, 1, 2]"
    by (simp add: rotate_tour_def numeral_2_eq_2)
  have n: "(1::nat) \<le> 3" by simp
  show ?thesis
    using measure_path_cycle[OF n c line_table_ok, of 2] c line_table_ok
    by (simp only: r) simp
qed

text \<open>
  C9, as the spec states it, says that the measured totals are the same. They are not
  always: each \<^verbatim>\<open>float\<close> addition rounds, so the total depends on the order. For the
  three cities \<open>(0, 0)\<close>, \<open>(1, 0)\<close> and \<open>(16777218, 0)\<close> the tour \<open>0, 1, 2, 0\<close>
  measures \<open>33554432\<close>, the same cycle started at city 2 measures \<open>33554436\<close>, and that
  one walked backwards measures \<open>33554432\<close>.
\<close>

theorem measure_path_rotation_differs:
  "closed_tour 3 [0, 1, 2, 0]
   \<and> symmetric 3 (distance_matrix [(Fin 0, Fin 0), (Fin 1, Fin 0), (Fin 16777218, Fin 0)] 3)
   \<and> rotate_tour 2 [0, 1, 2, 0] = [2, 0, 1, 2]
   \<and> reverse_tour [2, 0, 1, 2] = [2, 1, 0, 2]
   \<and> measure_path (distance_matrix [(Fin 0, Fin 0), (Fin 1, Fin 0), (Fin 16777218, Fin 0)] 3)
         3 [0, 1, 2, 0] = Some (Fin 33554432)
   \<and> measure_path (distance_matrix [(Fin 0, Fin 0), (Fin 1, Fin 0), (Fin 16777218, Fin 0)] 3)
         3 [2, 0, 1, 2] = Some (Fin 33554436)
   \<and> measure_path (distance_matrix [(Fin 0, Fin 0), (Fin 1, Fin 0), (Fin 16777218, Fin 0)] 3)
         3 [2, 1, 0, 2] = Some (Fin 33554432)
   \<and> Fin 33554432 \<noteq> Fin 33554436"
proof -
  let ?d = "[[Fin 0, Fin 1, Fin 16777218], [Fin 1, Fin 0, Fin 16777216],
             [Fin 16777218, Fin 16777216, Fin 0]]"
  have c: "closed_tour 3 [0, 1, 2, 0]" by (simp add: closed_tour_def valid_tour_def)
  have v: "valid_tour 3 [0, 1, 2, 0]" "valid_tour 3 [2, 0, 1, 2]" "valid_tour 3 [2, 1, 0, 2]"
    by (simp_all add: valid_tour_def)
  have r: "rotate_tour 2 [0, 1, 2, 0] = [2, 0, 1, 2]"
    by (simp add: rotate_tour_def numeral_2_eq_2)
  have b: "reverse_tour [2, 0, 1, 2] = [2, 1, 0, 2]"
    by (simp add: reverse_tour_def)
  have e: "round_to binary32 1 = Fin 1" "round_to binary32 16777216 = Fin 16777216"
    using round32_nat[of 1] round32_nat[of 16777216] by simp_all
  have m1: "measure_path ?d 3 [0, 1, 2, 0] = Some (Fin 33554432)"
    using measure_path_fold[OF v(1) line_table_ok(1)] e round32_ties
    by (simp add: edges_def upt3)
  have m2: "measure_path ?d 3 [2, 0, 1, 2] = Some (Fin 33554436)"
    using measure_path_fold[OF v(2) line_table_ok(1)] e round32_ties
    by (simp add: edges_def upt3)
  have m3: "measure_path ?d 3 [2, 1, 0, 2] = Some (Fin 33554432)"
    using measure_path_fold[OF v(3) line_table_ok(1)] e round32_ties
    by (simp add: edges_def upt3)
  show ?thesis
    using c r b m1 m2 m3 line_table_ok(2) by (simp only: line_table) simp
qed

section \<open>One trial of the search loop\<close>

lemma create_path_valid:
  assumes "1 \<le> n" "create_path n h r = (p, h', r')" "cells h' p = Some a"
  shows "valid_tour n a"
proof -
  have a: "length a = n + 1" "mset (take n a) = mset [0..<n]" "a ! n = a ! 0"
    using create_path_shape[OF assms(2)] assms(3) by auto
  have s: "set (take n a) = {0..<n}"
    using a(2) by (metis mset_eq_setD set_upt)
  have "a = take (Suc n) a" using a(1) by simp
  also have "\<dots> = take n a @ [a ! n]"
    by (rule take_Suc_conv_app_nth) (simp add: a(1))
  finally have "set a = set (take n a @ [a ! n])" by simp
  then have "set a = set (take n a) \<union> {a ! n}" by simp
  moreover have "take n a ! 0 \<in> set (take n a)"
    using assms(1) a(1) by (intro nth_mem) simp
  then have "a ! 0 \<in> set (take n a)" using assms(1) by simp
  ultimately show ?thesis
    using a s by (auto simp: valid_tour_def)
qed

lemma measure_path_total:
  assumes "square n distance" "create_path n h r = (p, h', r')" "cells h' p = Some a"
  shows "\<exists>l. measure_path distance n a = Some l"
proof (cases "n = 0")
  case True
  then show ?thesis by (simp add: measure_path_def measure_loop.simps[of distance 0])
next
  case False
  then have "valid_tour n a"
    using create_path_valid[OF _ assms(2,3)] by simp
  then show ?thesis using assms(1) by (simp add: measure_path_fold)
qed

lemma create_path_1:
  "create_path 1 h r = (brk h, h\<lparr>cells := (cells h)(brk h \<mapsto> [0, 0]), brk := Suc (brk h)\<rparr>,
      \<lambda>k. r (Suc k))"
  by (simp add: create_path_def malloc_def randperm_def randperm_loop.simps
        rand_def fresh_def Let_def)

lemma measure_path_1: "measure_path [[Fin 0]] 1 [0, 0] = Some (Fin 0)"
  by (simp add: measure_path_def measure_loop.simps round_to_zero)

text \<open>
  C1. One trial of the loop, from a state between trials: when the length it measures
  is strictly less than \<^verbatim>\<open>min_len\<close>, \<^verbatim>\<open>min_len\<close> becomes that length and \<^verbatim>\<open>min_path\<close>
  points to a block that holds the trial's tour and is not the trial's own block;
  otherwise (a tie included) \<^verbatim>\<open>min_len\<close>, \<^verbatim>\<open>min_path\<close> and the block \<^verbatim>\<open>min_path\<close>
  points to are unchanged, so the tour found earlier is kept. Either way the trial's own
  block is freed afterwards.
\<close>

theorem incumbent_update:
  assumes ok: "state_ok s" and tour: "trial_tour n s = Some a"
    and len: "trial_len distance n s = Some l"
  shows "(if fless l (st_min_len s)
          then st_min_len (loop_body ld distance n mode s) = l
             \<and> (\<exists>q. st_min_path (loop_body ld distance n mode s) = Some q
                   \<and> cells (st_heap (loop_body ld distance n mode s)) q = Some a
                   \<and> st_path (loop_body ld distance n mode s) \<noteq> Some q)
          else st_min_len (loop_body ld distance n mode s) = st_min_len s
             \<and> st_min_path (loop_body ld distance n mode s) = st_min_path s
             \<and> (\<forall>q. st_min_path s = Some q \<longrightarrow>
                   cells (st_heap (loop_body ld distance n mode s)) q
                     = cells (st_heap s) q))
       \<and> (\<exists>p. st_path (loop_body ld distance n mode s) = Some p
              \<and> cells (st_heap (loop_body ld distance n mode s)) p = None)
       \<and> state_ok (loop_body ld distance n mode s)"
proof -
  obtain p h1 r1 where cp: "create_path n (st_heap s) (st_rng s) = (p, h1, r1)"
    by (cases "create_path n (st_heap s) (st_rng s)") auto
  have a: "cells h1 p = Some a" using tour cp by (simp add: trial_tour_def)
  have l: "measure_path distance n a = Some l"
    using len tour by (simp add: trial_len_def)
  have sh: "p = brk (st_heap s)" "brk h1 = Suc (brk (st_heap s))"
      "\<forall>q. q \<noteq> p \<longrightarrow> cells h1 q = cells (st_heap s) q" "length a = n + 1"
    using create_path_shape[OF cp] a by auto
  have h: "\<forall>q. brk (st_heap s) \<le> q \<longrightarrow> cells (st_heap s) q = None"
      "\<forall>q. st_min_path s = Some q \<longrightarrow> q < brk (st_heap s)"
    using ok by (simp_all add: state_ok_def heap_ok_def)
  show ?thesis
  proof (cases "fless l (st_min_len s)")
    case True
    then show ?thesis
      using cp a l sh h
      by (simp add: loop_body_def array_copy_def malloc_def free_def Let_def
            state_ok_def heap_ok_def)
  next
    case False
    then show ?thesis
      using cp a l sh h
      by (auto simp: loop_body_def free_def Let_def state_ok_def heap_ok_def)
  qed
qed

theorem incumbent_update_witness:
  "state_ok (init_state empty_heap (\<lambda>k. k))
   \<and> trial_tour 1 (init_state empty_heap (\<lambda>k. k)) = Some [0, 0]
   \<and> trial_len [[Fin 0]] 1 (init_state empty_heap (\<lambda>k. k)) = Some (Fin 0)
   \<and> fless (Fin 0) (st_min_len (init_state empty_heap (\<lambda>k. k)))
   \<and> st_min_len (loop_body x87_extended [[Fin 0]] 1 0 (init_state empty_heap (\<lambda>k. k)))
        = Fin 0
   \<and> (\<exists>q. st_min_path (loop_body x87_extended [[Fin 0]] 1 0 (init_state empty_heap (\<lambda>k. k)))
              = Some q
          \<and> cells (st_heap (loop_body x87_extended [[Fin 0]] 1 0
                                (init_state empty_heap (\<lambda>k. k)))) q = Some [0, 0]
          \<and> st_path (loop_body x87_extended [[Fin 0]] 1 0 (init_state empty_heap (\<lambda>k. k)))
              \<noteq> Some q)"
proof -
  let ?s = "init_state empty_heap (\<lambda>k. k)"
  have ok: "state_ok ?s"
    by (simp add: state_ok_def heap_ok_def init_state_def empty_heap_def)
  have t: "trial_tour 1 ?s = Some [0, 0]"
    using create_path_1[of empty_heap "\<lambda>k. k"]
    by (simp add: trial_tour_def init_state_def empty_heap_def)
  have l: "trial_len [[Fin 0]] 1 ?s = Some (Fin 0)"
    using t measure_path_1 by (simp add: trial_len_def)
  have f: "fless (Fin 0) (st_min_len ?s)"
    by (simp add: init_state_def FLT_MAX_def)
  show ?thesis
    using incumbent_update[OF ok t l, of x87_extended 0] ok t l f by simp
qed


section \<open>The running minimum\<close>

lemma loop_body_min_len:
  "st_min_len (loop_body ld distance n mode s) = st_min_len s
   \<or> fless (st_min_len (loop_body ld distance n mode s)) (st_min_len s)"
  by (auto simp: loop_body_def Let_def split: prod.splits option.splits)

lemma loop_body_fle:
  assumes "st_min_len s \<noteq> NaN"
  shows "fle (st_min_len (loop_body ld distance n mode s)) (st_min_len s)
         \<and> st_min_len (loop_body ld distance n mode s) \<noteq> NaN"
  using loop_body_min_len[of ld distance n mode s] assms
  by (auto simp: fle_refl fless_imp_fle fless_not_nan)

lemma iterate_not_nan:
  "st_min_len ((loop_body ld distance n mode ^^ T) (init_state h r)) \<noteq> NaN"
proof (induction T)
  case 0
  show ?case by (simp add: init_state_def FLT_MAX_def)
next
  case (Suc T)
  then show ?case using loop_body_fle by simp
qed

text \<open>
  C5. From the start of the loop and for a fixed pseudo-random sequence, so a fixed
  sequence of sampled tours, \<^verbatim>\<open>min_len\<close> after \<open>T + 1\<close> trials is less than or equal to
  \<^verbatim>\<open>min_len\<close> after the first \<open>T\<close> of them.
\<close>

theorem best_length_monotone:
  "fle (st_min_len ((loop_body ld distance n mode ^^ Suc T) (init_state h r)))
       (st_min_len ((loop_body ld distance n mode ^^ T) (init_state h r)))"
  using loop_body_fle[OF iterate_not_nan] by simp

section \<open>The trial counter\<close>

lemma while_option_iterate:
  assumes "\<forall>j<k. b ((c ^^ j) s)" "\<not> b ((c ^^ k) s)"
  shows "while_option b c s = Some ((c ^^ k) s)"
proof -
  have "(LEAST j. \<not> b ((c ^^ j) s)) = k"
    using assms by (intro Least_equality) (auto simp: not_less[symmetric])
  then show ?thesis using assms(2) by (auto simp: while_option_def)
qed

lemma while_option_forever:
  assumes "\<forall>k. b ((c ^^ k) s)"
  shows "while_option b c s = None"
  using assms by (simp add: while_option_def)

lemma counter_exact:
  assumes "valid_format ld" "k \<le> 2 ^ prec ld"
  shows "((\<lambda>x. fadd ld x (Fin 1)) ^^ k) (Fin 0) = Fin (real k)"
  using assms(2)
proof (induction k)
  case 0
  show ?case by simp
next
  case (Suc k)
  then have "((\<lambda>x. fadd ld x (Fin 1)) ^^ k) (Fin 0) = Fin (real k)" by simp
  moreover have "round_to ld (real (Suc k)) = Fin (real (Suc k))"
    using round_to_small_int[OF assms(1) Suc.prems] .
  ultimately show ?case by (simp add: add.commute)
qed

lemma counter_stall:
  assumes "valid_format ld" "2 ^ prec ld \<le> k"
  shows "((\<lambda>x. fadd ld x (Fin 1)) ^^ k) (Fin 0) = Fin (2 ^ prec ld)"
  using assms(2)
proof (induction k)
  case 0
  then show ?case by simp
next
  case (Suc k)
  show ?case
  proof (cases "2 ^ prec ld \<le> k")
    case True
    then have "((\<lambda>x. fadd ld x (Fin 1)) ^^ k) (Fin 0) = Fin (2 ^ prec ld)"
      using Suc.IH by simp
    then show ?thesis using round_to_stall[OF assms(1)] by simp
  next
    case False
    with Suc.prems have e: "Suc k = 2 ^ prec ld" by simp
    then have "real (Suc k) = 2 ^ prec ld"
      by (metis of_nat_numeral of_nat_power)
    then show ?thesis
      using counter_exact[OF assms(1), of "Suc k"] e by simp
  qed
qed

section \<open>How many trials the loop runs\<close>

lemma fless_mono_left: "x \<le> y \<Longrightarrow> fless (Fin y) b \<Longrightarrow> fless (Fin x) b"
  by (cases b) simp_all

lemma fless_fle_trans: "x < y \<Longrightarrow> fle (Fin y) b \<Longrightarrow> fless (Fin x) b"
  by (cases b) simp_all

lemma loop_body_counter:
  assumes "square n distance" "\<not> st_ub s"
  shows "\<not> st_ub (loop_body ld distance n mode s)
       \<and> st_i (loop_body ld distance n mode s) = fadd ld (st_i s) (Fin 1)"
proof -
  obtain p h1 r1 where cp: "create_path n (st_heap s) (st_rng s) = (p, h1, r1)"
    by (cases "create_path n (st_heap s) (st_rng s)") auto
  obtain a where a: "cells h1 p = Some a"
    using create_path_shape[OF cp] by blast
  obtain l where l: "measure_path distance n a = Some l"
    using measure_path_total[OF assms(1) cp a] by blast
  show ?thesis
    using cp a l assms(2)
    by (simp add: loop_body_def array_copy_def malloc_def Let_def)
qed

lemma iterate_counter:
  assumes "square n distance"
  shows "\<not> st_ub ((loop_body ld distance n mode ^^ k) (init_state h r))
       \<and> st_i ((loop_body ld distance n mode ^^ k) (init_state h r))
           = ((\<lambda>x. fadd ld x (Fin 1)) ^^ k) (Fin 0)"
proof (induction k)
  case 0
  show ?case by (simp add: init_state_def)
next
  case (Suc k)
  then show ?case using loop_body_counter[OF assms] by simp
qed

lemma search_loop_exact:
  assumes "valid_format ld" "T \<le> 2 ^ prec ld" "square n distance"
  shows "search_loop ld distance n mode (Fin (real T)) (init_state h r)
           = Some ((loop_body ld distance n mode ^^ T) (init_state h r))"
  unfolding search_loop_def
proof (rule while_option_iterate)
  show "\<forall>j<T. loop_cond (Fin (real T)) ((loop_body ld distance n mode ^^ j) (init_state h r))"
  proof (intro allI impI)
    fix j assume j: "j < T"
    then have "j \<le> 2 ^ prec ld" using assms(2) by simp
    then show "loop_cond (Fin (real T)) ((loop_body ld distance n mode ^^ j) (init_state h r))"
      using iterate_counter[OF assms(3), where ld = ld and mode = mode and k = j and h = h and r = r] counter_exact[OF assms(1), of j] j
      by (simp add: loop_cond_def)
  qed
  show "\<not> loop_cond (Fin (real T)) ((loop_body ld distance n mode ^^ T) (init_state h r))"
    using iterate_counter[OF assms(3), where ld = ld and mode = mode and k = T and h = h and r = r] counter_exact[OF assms(1,2)]
    by (simp add: loop_cond_def)
qed

lemma search_loop_diverges:
  assumes "valid_format ld" "square n distance" "fless (Fin (2 ^ prec ld)) num_iter"
  shows "search_loop ld distance n mode num_iter (init_state h r) = None"
  unfolding search_loop_def
proof (rule while_option_forever, rule allI)
  fix k
  note it = iterate_counter[OF assms(2), where ld = ld and mode = mode and k = k
      and h = h and r = r]
  show "loop_cond num_iter ((loop_body ld distance n mode ^^ k) (init_state h r))"
  proof (cases "k \<le> 2 ^ prec ld")
    case True
    have "real k \<le> real (2 ^ prec ld)" using True by (simp only: of_nat_le_iff)
    then have "real k \<le> 2 ^ prec ld" by simp
    then have "fless (Fin (real k)) num_iter"
      using assms(3) by (rule fless_mono_left)
    then show ?thesis
      using it counter_exact[OF assms(1) True] by (simp add: loop_cond_def)
  next
    case False
    then have "2 ^ prec ld \<le> k" by simp
    then show ?thesis
      using it counter_stall[OF assms(1)] assms(3) by (simp add: loop_cond_def)
  qed
qed

section \<open>The checks before the search\<close>

lemma count_rows_all:
  "\<forall>l \<in> set lines. is_coordinate u l \<Longrightarrow> count_rows u lines k = Some (k + int (length lines))"
  by (induction lines arbitrary: k) simp_all

lemma count_rows_nonneg: "count_rows u lines k = Some nrows \<Longrightarrow> k \<le> nrows"
proof (induction lines arbitrary: k)
  case Nil
  then show ?case by simp
next
  case (Cons line rest)
  then show ?case by (fastforce split: if_splits)
qed

lemma read_file_ok:
  assumes "fopen fs fname = Some lines" "\<forall>l \<in> set lines. is_coordinate u l"
  shows "read_file u fs fname
           = (int (length lines),
              Some (map (\<lambda>i. (fscanf fs lines (2 * i), fscanf fs lines (2 * i + 1)))
                      [0..<length lines]))"
  using assms by (simp add: read_file_def count_rows_all)

lemma read_file_cases:
  assumes "read_file u fs fname = (nc, coord)" "nc \<noteq> 0" "nc \<noteq> - 1"
  shows "1 \<le> nc \<and> (\<exists>c. coord = Some c \<and> length c = nat nc)"
proof -
  obtain lines where o: "fopen fs fname = Some lines"
    using assms by (cases "fopen fs fname") (simp_all add: read_file_def)
  obtain nrows where c: "count_rows u lines 0 = Some nrows"
    using assms o by (cases "count_rows u lines 0") (simp_all add: read_file_def)
  have "0 \<le> nrows" using count_rows_nonneg[OF c] .
  then show ?thesis using assms o c by (auto simp: read_file_def)
qed

lemma startup_accepts:
  assumes vf: "valid_format ld" and n: "is_integer u s"
    and m: "is_positive_number u m" "atoi m \<le> 2"
    and f: "fopen fs fname = Some lines" "lines \<noteq> []" "\<forall>l \<in> set lines. is_coordinate u l"
  shows "startup u fs ld junk [Opt_n s, Opt_m m, Opt_f fname] False
           = Inr \<lparr>cf_num_iter = strtold ld s, cf_mode = atoi m,
                  cf_num_cities = int (length lines),
                  cf_coord = Some (map (\<lambda>i. (fscanf fs lines (2 * i), fscanf fs lines (2 * i + 1)))
                                    [0..<length lines]),
                  cf_nflag = True, cf_mflag = True, cf_fflag = True\<rparr>"
proof -
  have g: "\<not> overflow_guard ld (strtold ld s)"
    unfolding strtold_def by (rule guard_dead[OF vf]) simp
  show ?thesis
    using n m f(2) g read_file_ok[OF f(1,3)]
    by (simp add: startup_def init_config_def)
qed

lemma run_search:
  assumes "cf_coord c = Some coord" "cf_num_cities c = int n"
  shows "run ld h r c =
     (case search_loop ld (distance_matrix coord n) n (cf_mode c) (cf_num_iter c)
             (init_state h r) of
        None \<Rightarrow> None
      | Some s \<Rightarrow>
          if st_ub s then Some Undefined_behaviour
          else Some (Return0 (report_of c n s)))"
  using assms by (simp add: run_def Let_def)

lemma decimal_zeros:
  "foldl (\<lambda>a c. 10 * a + (of_char c - 48)) (a::nat) (replicate n (CHR ''0'')) = a * 10 ^ n"
  by (induction n arbitrary: a) simp_all

lemma decimal_one_zeros: "decimal (CHR ''1'' # replicate n (CHR ''0'')) = 10 ^ n"
  using decimal_zeros[of 1 n] by (simp add: decimal_def)

lemma all_digits_one_zeros: "all_digits (CHR ''1'' # replicate n (CHR ''0''))"
  by (auto simp: all_digits_def)

lemma huge_count_digits: "all_digits huge_count"
  unfolding huge_count_def by (rule all_digits_one_zeros)

lemma huge_count_value: "decimal huge_count = 10 ^ 5000"
  unfolding huge_count_def by (rule decimal_one_zeros)

lemma huge_count_big: "2 ^ nat (emax x87_extended + 1) \<le> decimal huge_count"
proof -
  have e: "(33::nat) * 500 = 16500" "(10::nat) * 500 = 5000" by simp_all
  have "(2::nat) ^ 33 \<le> 10 ^ 10" by simp
  then have "((2::nat) ^ 33) ^ 500 \<le> (10 ^ 10) ^ 500" by (rule power_mono) simp
  then have a: "(2::nat) ^ 16500 \<le> 10 ^ 5000"
    unfolding power_mult[symmetric] e .
  have b: "(2::nat) ^ 16384 \<le> 2 ^ 16500" by (rule power_increasing) simp_all
  have c: "(2::nat) ^ 16384 \<le> 10 ^ 5000" using b a by (rule order_trans)
  have n: "nat (emax x87_extended + 1) = 16384" by (simp add: x87_extended_def)
  show ?thesis unfolding n huge_count_value by (rule c)
qed

lemma sample_cities:
  "fopen sample_files ''cities.txt'' = Some [''0 0'', ''3 4'']"
  "is_coordinate sample_utils ''0 0''" "is_coordinate sample_utils ''3 4''"
  "is_integer sample_utils = all_digits" "is_positive_number sample_utils = all_digits"
  by (simp_all add: sample_files_def sample_utils_def)

lemma getopt_case_cities:
  assumes "getopt_case u fs ld x c = Inr c'"
    and "cf_fflag c \<longrightarrow> 1 \<le> cf_num_cities c
           \<and> (\<exists>coord. cf_coord c = Some coord \<and> length coord = nat (cf_num_cities c))"
  shows "cf_fflag c' \<longrightarrow> 1 \<le> cf_num_cities c'
           \<and> (\<exists>coord. cf_coord c' = Some coord \<and> length coord = nat (cf_num_cities c'))"
proof (cases x)
  case (Opt_f fname)
  obtain nc coord where rf: "read_file u fs fname = (nc, coord)"
    by (cases "read_file u fs fname")
  have "nc \<noteq> 0" "nc \<noteq> - 1" "c' = c\<lparr>cf_fflag := True, cf_num_cities := nc, cf_coord := coord\<rparr>"
    using assms(1) Opt_f rf by (auto split: if_splits)
  then show ?thesis using read_file_cases[OF rf] by auto
qed (use assms in \<open>auto split: if_splits\<close>)

lemma getopt_loop_cities:
  assumes "getopt_loop u fs ld opts c = Inr c'"
    and "cf_fflag c \<longrightarrow> 1 \<le> cf_num_cities c
           \<and> (\<exists>coord. cf_coord c = Some coord \<and> length coord = nat (cf_num_cities c))"
  shows "cf_fflag c' \<longrightarrow> 1 \<le> cf_num_cities c'
           \<and> (\<exists>coord. cf_coord c' = Some coord \<and> length coord = nat (cf_num_cities c'))"
  using assms
proof (induction opts arbitrary: c)
  case Nil
  then show ?case by simp
next
  case (Cons x xs)
  obtain c1 where c1: "getopt_case u fs ld x c = Inr c1"
    using Cons.prems(1) by (cases "getopt_case u fs ld x c") simp_all
  have "getopt_loop u fs ld xs c1 = Inr c'" using Cons.prems(1) c1 by simp
  then show ?case
    using Cons.IH[of c1] getopt_case_cities[OF c1 Cons.prems(2)] by blast
qed

lemma getopt_loop_append:
  "getopt_loop u fs ld pre c0 = Inr c \<Longrightarrow>
   getopt_loop u fs ld (pre @ xs) c0 = getopt_loop u fs ld xs c"
  by (induction pre arbitrary: c0) (auto split: sum.splits)

text \<open>
  C10. A coordinate file that opens and holds no line makes \<^verbatim>\<open>read_file\<close> return 0, as
  a file that does not open does. At that option \<^verbatim>\<open>main\<close> exits with failure and the
  message of the missing file, so it builds no distance table and runs no trial. And
  whenever the checks before the search let a run through, the city count is at least 1
  and the coordinate array has that many rows: \<^verbatim>\<open>distance_matrix\<close>, \<^verbatim>\<open>create_path\<close>
  and \<^verbatim>\<open>measure_path\<close> are not called with a city count of 0.
\<close>

theorem no_cities_no_search:
  "(fopen fs fname = Some [] \<longrightarrow> read_file u fs fname = (0, Some []))
   \<and> (fopen fs fname = None \<longrightarrow> fst (read_file u fs fname) = 0)
   \<and> (fst (read_file u fs fname) = 0 \<longrightarrow>
         getopt_case u fs ld (Opt_f fname) c
           = Inl (Exit EXIT_FAILURE ''error: no such file or directory'')
       \<and> (getopt_loop u fs ld pre (init_config junk) = Inr c \<longrightarrow>
            main u fs ld junk h r (pre @ Opt_f fname # post) extra
              = Some (Exit EXIT_FAILURE ''error: no such file or directory'')))
   \<and> (startup u fs ld junk opts extra = Inr c' \<longrightarrow>
         1 \<le> cf_num_cities c'
       \<and> (\<exists>coord. cf_coord c' = Some coord \<and> length coord = nat (cf_num_cities c')))"
proof -
  have a: "fopen fs fname = Some [] \<longrightarrow> read_file u fs fname = (0, Some [])"
    by (simp add: read_file_def)
  have b: "fopen fs fname = None \<longrightarrow> fst (read_file u fs fname) = 0"
    by (simp add: read_file_def)
  have c1: "getopt_case u fs ld (Opt_f fname) c
              = Inl (Exit EXIT_FAILURE ''error: no such file or directory'')"
    if "fst (read_file u fs fname) = 0"
    using that by (cases "read_file u fs fname") simp
  have c2: "main u fs ld junk h r (pre @ Opt_f fname # post) extra
              = Some (Exit EXIT_FAILURE ''error: no such file or directory'')"
    if "fst (read_file u fs fname) = 0" "getopt_loop u fs ld pre (init_config junk) = Inr c"
    using getopt_loop_append[OF that(2), of "Opt_f fname # post"] c1[OF that(1)]
    by (simp add: main_def startup_def)
  have d: "1 \<le> cf_num_cities c'
       \<and> (\<exists>coord. cf_coord c' = Some coord \<and> length coord = nat (cf_num_cities c'))"
    if "startup u fs ld junk opts extra = Inr c'"
  proof -
    have "\<exists>c0. getopt_loop u fs ld opts (init_config junk) = Inr c0"
    proof (cases "getopt_loop u fs ld opts (init_config junk)")
      case (Inl e)
      then show ?thesis using that by (simp add: startup_def)
    next
      case (Inr c0)
      then show ?thesis by blast
    qed
    then obtain c0 where g: "getopt_loop u fs ld opts (init_config junk) = Inr c0"
      by blast
    have "c0 = c'" "cf_fflag c0"
      using that g by (simp_all add: startup_def split: if_splits)
    then show ?thesis
      using getopt_loop_cities[OF g] by (simp add: init_config_def)
  qed
  show ?thesis using a b c1 c2 d by blast
qed


theorem no_cities_no_search_witness:
  "fopen sample_files ''empty.txt'' = Some []
   \<and> read_file sample_utils sample_files ''empty.txt'' = (0, Some [])
   \<and> fopen sample_files ''missing.txt'' = None
   \<and> fst (read_file sample_utils sample_files ''missing.txt'') = 0
   \<and> main sample_utils sample_files x87_extended (Fin 0) empty_heap (\<lambda>k. k)
         [Opt_n ''5'', Opt_m ''0'', Opt_f ''empty.txt''] False
       = Some (Exit EXIT_FAILURE ''error: no such file or directory'')
   \<and> startup sample_utils sample_files x87_extended (Fin 0)
         [Opt_n ''5'', Opt_m ''0'', Opt_f ''cities.txt''] False
       = Inr \<lparr>cf_num_iter = strtold x87_extended ''5'', cf_mode = 0, cf_num_cities = 2,
              cf_coord = Some [(Fin 0, Fin 0), (Fin 3, Fin 4)],
              cf_nflag = True, cf_mflag = True, cf_fflag = True\<rparr>
   \<and> (1::int) \<le> 2"
proof -
  define c where "c = (init_config (Fin 0))
      \<lparr>cf_nflag := True, cf_num_iter := strtold x87_extended ''5'',
       cf_mflag := True, cf_mode := atoi ''0''\<rparr>"
  define c' where "c' = \<lparr>cf_num_iter = strtold x87_extended ''5'', cf_mode = 0,
      cf_num_cities = 2, cf_coord = Some [(Fin 0, Fin 0), (Fin 3, Fin 4)],
      cf_nflag = True, cf_mflag = True, cf_fflag = True\<rparr>"
  have d: "atoi ''0'' = 0" "all_digits ''0''" "all_digits ''5''"
    by (simp_all add: decimal_def atoi_def all_digits_def)
  have l: "[''0 0'', ''3 4''] \<noteq> []"
      "\<forall>l \<in> set [''0 0'', ''3 4'']. is_coordinate sample_utils l"
    by (simp_all add: sample_cities)
  have o: "fopen sample_files ''empty.txt'' = Some []"
      "fopen sample_files ''missing.txt'' = None"
    by (simp_all add: sample_files_def)
  have g: "getopt_loop sample_utils sample_files x87_extended [Opt_n ''5'', Opt_m ''0'']
             (init_config (Fin 0)) = Inr c"
    using d by (simp add: c_def sample_cities)
  have s: "startup sample_utils sample_files x87_extended (Fin 0)
             [Opt_n ''5'', Opt_m ''0'', Opt_f ''cities.txt''] False = Inr c'"
    using startup_accepts[OF valid_x87_extended _ _ _ sample_cities(1) l,
        where s = "''5''" and m = "''0''" and junk = "Fin 0"] d sample_cities
    by (simp add: c'_def sample_files_def upt_rec)
  note t = no_cities_no_search[where fs = sample_files and u = sample_utils
      and ld = x87_extended and c = c and pre = "[Opt_n ''5'', Opt_m ''0'']"
      and junk = "Fin 0" and post = "[]" and extra = False and h = empty_heap
      and r = "\<lambda>k. k" and opts = "[Opt_n ''5'', Opt_m ''0'', Opt_f ''cities.txt'']"
      and c' = c']
  have e: "read_file sample_utils sample_files ''empty.txt'' = (0, Some [])"
    using t[where fname = "''empty.txt''"] o by blast
  then have "fst (read_file sample_utils sample_files ''empty.txt'') = 0" by simp
  then have m: "main sample_utils sample_files x87_extended (Fin 0) empty_heap (\<lambda>k. k)
         ([Opt_n ''5'', Opt_m ''0''] @ Opt_f ''empty.txt'' # []) False
       = Some (Exit EXIT_FAILURE ''error: no such file or directory'')"
    using t[where fname = "''empty.txt''"] g by blast
  have f: "fst (read_file sample_utils sample_files ''missing.txt'') = 0"
    using t[where fname = "''missing.txt''"] o by blast
  show ?thesis using o e f m s by (simp add: c'_def)
qed

section \<open>Runs that the checks let through\<close>

text \<open>
  C6. With the trial count 0 the loop body never runs, \<^verbatim>\<open>min_len\<close> keeps \<^verbatim>\<open>FLT_MAX\<close>
  and \<^verbatim>\<open>min_path\<close> is never assigned; \<^verbatim>\<open>main\<close> has no test for this and goes on to
  \<^verbatim>\<open>print_repo\<close>, \<^verbatim>\<open>free (min_path)\<close> and \<^verbatim>\<open>return 0\<close> as after any other run.
\<close>

theorem main_zero_trials:
  assumes "valid_format ld" and "is_integer u s" and "decimal s = 0"
    and "is_positive_number u m" and "atoi m \<le> 2"
    and "fopen fs fname = Some lines" and "lines \<noteq> []"
    and "\<forall>l \<in> set lines. is_coordinate u l"
  shows "main u fs ld junk h r [Opt_n s, Opt_m m, Opt_f fname] False
           = Some (Return0
                \<lparr>rep_min_path = None, rep_min_len = FLT_MAX, rep_num_iter = Fin 0,
                 rep_num_cities = length lines, rep_mode = atoi m, rep_out = []\<rparr>)"
proof -
  let ?coord = "map (\<lambda>i. (fscanf fs lines (2 * i), fscanf fs lines (2 * i + 1)))
                  [0..<length lines]"
  have z: "strtold ld s = Fin 0"
    using assms(3) by (simp add: strtold_def round_to_zero)
  have "search_loop ld (distance_matrix ?coord (length lines)) (length lines) (atoi m)
          (Fin (real 0)) (init_state h r)
        = Some ((loop_body ld (distance_matrix ?coord (length lines)) (length lines) (atoi m) ^^ 0)
                 (init_state h r))"
    by (rule search_loop_exact[OF assms(1) _ distance_matrix_square]) simp
  then have sl: "search_loop ld (distance_matrix ?coord (length lines)) (length lines) (atoi m)
          (Fin 0) (init_state h r) = Some (init_state h r)"
    by simp
  show ?thesis
    using startup_accepts[OF assms(1,2,4-8), of junk] z sl
    by (simp add: main_def run_search[where n = "length lines" and coord = ?coord]
          init_state_def report_of_def)
qed

theorem main_zero_trials_witness:
  "valid_format x87_extended \<and> is_integer sample_utils ''0'' \<and> decimal ''0'' = 0
   \<and> is_positive_number sample_utils ''0'' \<and> atoi ''0'' \<le> 2
   \<and> fopen sample_files ''cities.txt'' = Some [''0 0'', ''3 4'']
   \<and> is_coordinate sample_utils ''0 0'' \<and> is_coordinate sample_utils ''3 4''
   \<and> main sample_utils sample_files x87_extended (Fin 0) empty_heap (\<lambda>k. k)
         [Opt_n ''0'', Opt_m ''0'', Opt_f ''cities.txt''] False
       = Some (Return0
            \<lparr>rep_min_path = None, rep_min_len = FLT_MAX, rep_num_iter = Fin 0,
             rep_num_cities = 2, rep_mode = 0, rep_out = []\<rparr>)"
proof -
  have d: "decimal ''0'' = 0" "atoi ''0'' = 0" "all_digits ''0''"
    by (simp_all add: decimal_def atoi_def all_digits_def)
  have l: "[''0 0'', ''3 4''] \<noteq> []"
      "\<forall>l \<in> set [''0 0'', ''3 4'']. is_coordinate sample_utils l"
    by (simp_all add: sample_cities)
  show ?thesis
    using main_zero_trials[OF valid_x87_extended _ d(1) _ _ sample_cities(1) l,
        where m = "''0''" and junk = "Fin 0" and h = empty_heap and r = "\<lambda>k. k"]
      d sample_cities valid_x87_extended
    by simp
qed

text \<open>
  C7. For an accepted trial count of \<open>2^p + 2\<close> or more, \<open>p\<close> the precision of
  \<^verbatim>\<open>long double\<close>, the run never ends: the counter \<^verbatim>\<open>i\<close> counts up to \<open>2^p\<close> and stays
  there, since \<open>2^p + 1\<close> rounds to \<open>2^p\<close>, and \<^verbatim>\<open>i < num_iter\<close> stays true.
\<close>

theorem main_never_returns:
  assumes "valid_format ld" and "is_integer u s" and "2 ^ prec ld + 2 \<le> decimal s"
    and "is_positive_number u m" and "atoi m \<le> 2"
    and "fopen fs fname = Some lines" and "lines \<noteq> []"
    and "\<forall>l \<in> set lines. is_coordinate u l"
  shows "main u fs ld junk h r [Opt_n s, Opt_m m, Opt_f fname] False = None"
proof -
  let ?coord = "map (\<lambda>i. (fscanf fs lines (2 * i), fscanf fs lines (2 * i + 1)))
                  [0..<length lines]"
  define p where "p = prec ld"
  have p1: "1 \<le> p" "int p \<le> emax ld"
    using assms(1) by (simp_all add: valid_format_def p_def)
  have "real (2 ^ p + 2) \<le> real (decimal s)"
    using assms(3) unfolding p_def by (simp only: of_nat_le_iff)
  then have w: "2 ^ p + 2 \<le> real (decimal s)" by simp
  have half: "(2::real) ^ p = 2 * 2 ^ (p - 1)" using p1(1) by (cases p) simp_all
  have v: "(2::real) ^ p + 2 = of_int (2 ^ (p - 1) + 1) * 2 powi 1"
    by (simp add: half)
  have mle: "(2::int) ^ (p - 1) + 1 \<le> 2 ^ p"
  proof -
    have "(2::int) ^ p = 2 * 2 ^ (p - 1)" using p1(1) by (cases p) simp_all
    moreover have "(1::int) \<le> 2 ^ (p - 1)" by simp
    ultimately show ?thesis by linarith
  qed
  have "fle (Fin (2 ^ p + 2)) (round_to ld (real (decimal s)))"
  proof (rule round_to_ge[OF assms(1) _ _ _ v])
    show "0 \<le> (2::int) ^ (p - 1) + 1" by simp
    show "(2::int) ^ (p - 1) + 1 \<le> 2 ^ prec ld" using mle by (simp add: p_def)
    show "1 - emax ld - (int (prec ld) - 1) \<le> 1" using p1 by (simp add: p_def)
    have "(0::real) < 2 ^ p + 2" by (simp add: add_pos_pos)
    then show "0 < real (decimal s)" using w by linarith
    show "2 ^ p + 2 \<le> real (decimal s)" by (rule w)
  qed
  then have "fless (Fin (2 ^ p)) (strtold ld s)"
    unfolding strtold_def by (intro fless_fle_trans[of _ "2 ^ p + 2"]) simp_all
  then have "search_loop ld (distance_matrix ?coord (length lines)) (length lines) (atoi m)
          (strtold ld s) (init_state h r) = None"
    unfolding p_def by (intro search_loop_diverges[OF assms(1) distance_matrix_square])
  then show ?thesis
    using startup_accepts[OF assms(1,2,4-8), of junk]
    by (simp add: main_def run_search[where n = "length lines" and coord = ?coord])
qed

theorem main_never_returns_witness:
  "valid_format x87_extended \<and> is_integer sample_utils ''18446744073709551618''
   \<and> 2 ^ prec x87_extended + 2 \<le> decimal ''18446744073709551618''
   \<and> is_positive_number sample_utils ''0'' \<and> atoi ''0'' \<le> 2
   \<and> fopen sample_files ''cities.txt'' = Some [''0 0'', ''3 4'']
   \<and> is_coordinate sample_utils ''0 0'' \<and> is_coordinate sample_utils ''3 4''
   \<and> main sample_utils sample_files x87_extended (Fin 0) empty_heap (\<lambda>k. k)
         [Opt_n ''18446744073709551618'', Opt_m ''0'', Opt_f ''cities.txt''] False
       = None"
proof -
  have d: "atoi ''0'' = 0" "all_digits ''0''" "all_digits ''18446744073709551618''"
      "2 ^ prec x87_extended + 2 \<le> decimal ''18446744073709551618''"
    by (simp_all add: decimal_def atoi_def all_digits_def x87_extended_def)
  have l: "[''0 0'', ''3 4''] \<noteq> []"
      "\<forall>l \<in> set [''0 0'', ''3 4'']. is_coordinate sample_utils l"
    by (simp_all add: sample_cities)
  show ?thesis
    using main_never_returns[OF valid_x87_extended _ d(4) _ _ sample_cities(1) l,
        where m = "''0''" and junk = "Fin 0" and h = empty_heap
          and r = "\<lambda>k. k"] d sample_cities valid_x87_extended
    by simp
qed

text \<open>
  For an accepted trial count \<open>T\<close> of at most \<open>2^p\<close>, the counter is exact: the loop runs
  its body exactly \<open>T\<close> times and ends, and \<^verbatim>\<open>main\<close> returns 0 after \<^verbatim>\<open>print_repo\<close> is
  given the state these \<open>T\<close> trials end in.
\<close>

theorem main_exact_trials:
  assumes "valid_format ld" and "is_integer u s" and "decimal s \<le> 2 ^ prec ld"
    and "is_positive_number u m" and "atoi m \<le> 2"
    and "fopen fs fname = Some lines" and "lines \<noteq> []"
    and "\<forall>l \<in> set lines. is_coordinate u l"
  shows "\<exists>c coord. startup u fs ld junk [Opt_n s, Opt_m m, Opt_f fname] False = Inr c
          \<and> cf_num_iter c = Fin (real (decimal s)) \<and> cf_coord c = Some coord
          \<and> length coord = length lines
          \<and> search_loop ld (distance_matrix coord (length lines)) (length lines) (cf_mode c)
               (cf_num_iter c) (init_state h r)
             = Some ((loop_body ld (distance_matrix coord (length lines)) (length lines)
                        (cf_mode c) ^^ decimal s) (init_state h r))
          \<and> main u fs ld junk h r [Opt_n s, Opt_m m, Opt_f fname] False
             = Some (Return0 (report_of c (length lines)
                 ((loop_body ld (distance_matrix coord (length lines)) (length lines)
                     (cf_mode c) ^^ decimal s) (init_state h r))))"
proof -
  define coord where "coord = map (\<lambda>i. (fscanf fs lines (2 * i), fscanf fs lines (2 * i + 1)))
                  [0..<length lines]"
  define c where "c = \<lparr>cf_num_iter = strtold ld s, cf_mode = atoi m,
                  cf_num_cities = int (length lines), cf_coord = Some coord,
                  cf_nflag = True, cf_mflag = True, cf_fflag = True\<rparr>"
  let ?D = "distance_matrix coord (length lines)"
  let ?S = "(loop_body ld ?D (length lines) (cf_mode c) ^^ decimal s) (init_state h r)"
  have st: "startup u fs ld junk [Opt_n s, Opt_m m, Opt_f fname] False = Inr c"
    unfolding c_def coord_def by (rule startup_accepts[OF assms(1,2,4-8)])
  have z: "cf_num_iter c = Fin (real (decimal s))"
    using round_to_small_int[OF assms(1,3)] by (simp add: c_def strtold_def)
  have sl: "search_loop ld ?D (length lines) (cf_mode c) (cf_num_iter c) (init_state h r)
              = Some ?S"
    unfolding z by (rule search_loop_exact[OF assms(1,3) distance_matrix_square])
  have nu: "\<not> st_ub ?S"
    using iterate_counter[OF distance_matrix_square[of "length lines" coord],
        where ld = ld and mode = "cf_mode c" and k = "decimal s" and h = h and r = r]
    by simp
  have cc: "cf_coord c = Some coord" "cf_num_cities c = int (length lines)"
    by (simp_all add: c_def)
  have "main u fs ld junk h r [Opt_n s, Opt_m m, Opt_f fname] False
          = Some (Return0 (report_of c (length lines) ?S))"
    using nu by (simp add: main_def st run_search[OF cc] sl)
  moreover have "length coord = length lines" by (simp add: coord_def)
  ultimately show ?thesis using st z sl cc(1) by blast
qed

theorem main_exact_trials_witness:
  "valid_format x87_extended \<and> is_integer sample_utils ''7''
   \<and> decimal ''7'' \<le> 2 ^ prec x87_extended
   \<and> is_positive_number sample_utils ''0'' \<and> atoi ''0'' \<le> 2
   \<and> fopen sample_files ''cities.txt'' = Some [''0 0'', ''3 4'']
   \<and> is_coordinate sample_utils ''0 0'' \<and> is_coordinate sample_utils ''3 4''
   \<and> (\<exists>c coord. startup sample_utils sample_files x87_extended (Fin 0)
           [Opt_n ''7'', Opt_m ''0'', Opt_f ''cities.txt''] False = Inr c
          \<and> cf_num_iter c = Fin 7 \<and> cf_coord c = Some coord
          \<and> main sample_utils sample_files x87_extended (Fin 0) empty_heap (\<lambda>k. k)
               [Opt_n ''7'', Opt_m ''0'', Opt_f ''cities.txt''] False
             = Some (Return0 (report_of c 2
                 ((loop_body x87_extended (distance_matrix coord 2) 2 (cf_mode c) ^^ 7)
                    (init_state empty_heap (\<lambda>k. k))))))"
proof -
  have d: "atoi ''0'' = 0" "all_digits ''0''" "all_digits ''7''" "decimal ''7'' = 7"
      "decimal ''7'' \<le> 2 ^ prec x87_extended"
    by (simp_all add: decimal_def atoi_def all_digits_def x87_extended_def)
  have l: "[''0 0'', ''3 4''] \<noteq> []"
      "\<forall>l \<in> set [''0 0'', ''3 4'']. is_coordinate sample_utils l"
    by (simp_all add: sample_cities)
  have n: "length [''0 0'', ''3 4''] = 2" by simp
  note t = main_exact_trials[OF valid_x87_extended _ d(5) _ _ sample_cities(1) l,
      where m = "''0''" and junk = "Fin 0" and h = empty_heap and r = "\<lambda>k. k",
      unfolded n d(4)]
  have "\<exists>c coord. startup sample_utils sample_files x87_extended (Fin 0)
           [Opt_n ''7'', Opt_m ''0'', Opt_f ''cities.txt''] False = Inr c
          \<and> cf_num_iter c = Fin 7 \<and> cf_coord c = Some coord
          \<and> main sample_utils sample_files x87_extended (Fin 0) empty_heap (\<lambda>k. k)
               [Opt_n ''7'', Opt_m ''0'', Opt_f ''cities.txt''] False
             = Some (Return0 (report_of c 2
                 ((loop_body x87_extended (distance_matrix coord 2) 2 (cf_mode c) ^^ 7)
                    (init_state empty_heap (\<lambda>k. k)))))"
    using t d(1,2,3) sample_cities by auto
  then show ?thesis using d sample_cities valid_x87_extended by simp
qed

text \<open>
  C8. The test of line 185, \<^verbatim>\<open>num_iter + 1 < num_iter\<close>, is false for every trial count:
  in \<^verbatim>\<open>long double\<close> arithmetic the rounded sum is never below \<^verbatim>\<open>num_iter\<close>. A
  count beyond the largest \<^verbatim>\<open>long double\<close> is read as \<open>+infinity\<close> and passes the test
  like any other.
\<close>

theorem overflow_guard_never_fires:
  assumes "valid_format ld"
  shows "\<not> overflow_guard ld (strtold ld s)
       \<and> (2 ^ nat (emax ld + 1) \<le> decimal s \<longrightarrow> strtold ld s = PInf)"
proof -
  have g: "\<not> overflow_guard ld (strtold ld s)"
    unfolding strtold_def by (rule guard_dead[OF assms]) simp
  have "strtold ld s = PInf" if "2 ^ nat (emax ld + 1) \<le> decimal s"
  proof -
    have e: "0 \<le> emax ld + 1" using assms by (simp add: valid_format_def)
    have "real (2 ^ nat (emax ld + 1)) \<le> real (decimal s)"
      using that by (simp only: of_nat_le_iff)
    then have "2 powi (emax ld + 1) \<le> real (decimal s)"
      using e by (simp add: power_int_def)
    then show ?thesis
      unfolding strtold_def by (rule round_to_overflow[OF assms])
  qed
  then show ?thesis using g by simp
qed

theorem overflow_guard_never_fires_witness:
  "valid_format x87_extended
   \<and> 2 ^ nat (emax x87_extended + 1) \<le> decimal huge_count
   \<and> strtold x87_extended huge_count = PInf
   \<and> \<not> overflow_guard x87_extended (strtold x87_extended huge_count)
   \<and> startup sample_utils sample_files x87_extended (Fin 0)
         [Opt_n huge_count, Opt_m ''0'', Opt_f ''cities.txt''] False
       = Inr \<lparr>cf_num_iter = PInf, cf_mode = 0, cf_num_cities = 2,
              cf_coord = Some [(Fin 0, Fin 0), (Fin 3, Fin 4)],
              cf_nflag = True, cf_mflag = True, cf_fflag = True\<rparr>"
proof -
  have d: "atoi ''0'' = 0" "all_digits ''0''"
    by (simp_all add: decimal_def atoi_def all_digits_def)
  have l: "[''0 0'', ''3 4''] \<noteq> []"
      "\<forall>l \<in> set [''0 0'', ''3 4'']. is_coordinate sample_utils l"
    by (simp_all add: sample_cities)
  note t = overflow_guard_never_fires[OF valid_x87_extended, of huge_count]
  have inf: "strtold x87_extended huge_count = PInf" using t huge_count_big by blast
  have "startup sample_utils sample_files x87_extended (Fin 0)
          [Opt_n huge_count, Opt_m ''0'', Opt_f ''cities.txt''] False
        = Inr \<lparr>cf_num_iter = PInf, cf_mode = 0, cf_num_cities = 2,
               cf_coord = Some [(Fin 0, Fin 0), (Fin 3, Fin 4)],
               cf_nflag = True, cf_mflag = True, cf_fflag = True\<rparr>"
    using startup_accepts[OF valid_x87_extended _ _ _ sample_cities(1) l,
        where s = huge_count and m = "''0''" and junk = "Fin 0"]
      d sample_cities huge_count_digits inf
    by (simp add: sample_files_def upt_rec)
  then show ?thesis using t huge_count_big inf valid_x87_extended by simp
qed

end
